theory Spec2Isabelle
  imports Main "HOL-Library.Sublist"
begin

section \<open>LLMCoderAgent: the file-review pipeline\<close>

text \<open>
  A shallow embedding of the review pipeline of the editor extension. Two revisions of
  the pipeline are in the sources: \<^verbatim>\<open>src/src/extension.ts\<close> (one Flowise backend,
  settings read through the editor's configuration object) and
  \<^verbatim>\<open>src/unnamed/part_004\<close> (three providers, a \<^verbatim>\<open>Config\<close> record, retries).
  Where both define a function of the same name, the definition taken from
  \<^verbatim>\<open>extension.ts\<close> carries the suffix \<open>_ext\<close> and the one taken from
  \<^verbatim>\<open>part_004\<close> keeps the source's name.

  Conventions. A JavaScript exception is a value \<open>Error msg\<close> on the left of a sum;
  an \<^verbatim>\<open>async\<close> function that rejects returns \<open>Inl\<close>. Counts, sizes and
  durations (numbers that the settings schema bounds below by a positive minimum) are
  natural numbers. Text is \<open>string\<close>; the characters are 8-bit, so whitespace and
  word characters are the ASCII ones.
\<close>

subsection \<open>Errors, numbers as text, configuration\<close>

datatype js_error = Error string

fun error_message :: "js_error \<Rightarrow> string" where
  "error_message (Error m) = m"

text \<open>Template literals print a number in decimal.\<close>

definition digit_char :: "nat \<Rightarrow> char" where
  "digit_char d = ''0123456789'' ! d"

fun show_nat :: "nat \<Rightarrow> string" where
  "show_nat n = (if n < 10 then [digit_char n] else show_nat (n div 10) @ [digit_char (n mod 10)])"

declare show_nat.simps [simp del]

text \<open>The fields of \<^verbatim>\<open>interface Config\<close> (part_004, lines 41-67) that the pipeline reads.\<close>

record Config =
  apiMaxRetries :: nat
  apiRetryDelay :: nat
  maxFiles :: nat
  maxFileSize :: nat
  autoApplyChanges :: bool
  includePatterns :: "string list"
  excludePatterns :: "string list"

subsection \<open>Retry Dispatcher: \<^verbatim>\<open>getLLMResponse\<close> (part_004, lines 358-384)\<close>

text \<open>
  The provider is the outcome of its \<open>k\<close>-th call to \<^verbatim>\<open>getResponse\<close> (counted from
  0): a thrown error or the reply text. \<^verbatim>\<open>sanitizeHtml\<close> is a library function and
  a parameter of the model. What the dispatcher does to the outside is recorded as a
  trace: each call of \<^verbatim>\<open>getResponse\<close> with its attempt index, and each
  \<^verbatim>\<open>setTimeout\<close> sleep with the delay requested.
\<close>

datatype event = Call nat | Sleep nat

record LLMProvider =
  getName :: string
  getResponse :: "nat \<Rightarrow> js_error + string"

definition failed_message :: "LLMProvider \<Rightarrow> js_error \<Rightarrow> string" where
  "failed_message provider err =
     ''Failed to fetch '' @ getName provider @ '' response: '' @ error_message err"

definition all_failed_message :: "LLMProvider \<Rightarrow> Config \<Rightarrow> js_error \<Rightarrow> string" where
  "all_failed_message provider config err =
     failed_message provider err @ '' (All '' @ show_nat (apiMaxRetries config) @ '' retries failed)''"

definition or_no_response :: "string \<Rightarrow> string" where
  "or_no_response sanitized = (if sanitized = [] then ''No response received from LLM'' else sanitized)"

text \<open>
  The \<^verbatim>\<open>for\<close> loop, from attempt index \<open>attempt\<close> on, with the trace so far. The
  last line of the source (the throw after the loop) is reached only when the loop body
  never runs.
\<close>

function getLLMResponse_loop ::
  "(string \<Rightarrow> string) \<Rightarrow> Config \<Rightarrow> LLMProvider \<Rightarrow> nat \<Rightarrow> event list \<Rightarrow> (js_error + string) \<times> event list"
where
  "getLLMResponse_loop sanitizeHtml config provider attempt trace =
     (if attempt < apiMaxRetries config then
        (case getResponse provider attempt of
           Inr response \<Rightarrow>
             (Inr (or_no_response (sanitizeHtml response)), trace @ [Call attempt])
         | Inl err \<Rightarrow>
             if attempt < apiMaxRetries config - 1 then
               getLLMResponse_loop sanitizeHtml config provider (attempt + 1)
                 (trace @ [Call attempt, Sleep (apiRetryDelay config * 2 ^ attempt)])
             else
               (Inl (Error (all_failed_message provider config err)), trace @ [Call attempt]))
      else (Inl (Error ''Unexpected error in getLLMResponse''), trace))"
  by pat_completeness auto
termination
  by (relation "measure (\<lambda>(s, config, provider, attempt, trace). apiMaxRetries config - attempt)") auto

declare getLLMResponse_loop.simps [simp del]

definition getLLMResponse ::
  "(string \<Rightarrow> string) \<Rightarrow> Config \<Rightarrow> LLMProvider \<Rightarrow> (js_error + string) \<times> event list" where
  "getLLMResponse sanitizeHtml config provider = getLLMResponse_loop sanitizeHtml config provider 0 []"

text \<open>The trace of \<open>k\<close> failed attempts from index \<open>a\<close> on, each followed by its sleep.\<close>

definition failed_rounds :: "Config \<Rightarrow> nat \<Rightarrow> nat \<Rightarrow> event list" where
  "failed_rounds config a b =
     concat (map (\<lambda>i. [Call i, Sleep (apiRetryDelay config * 2 ^ i)]) [a..<b])"

fun calls :: "event list \<Rightarrow> nat list" where
  "calls [] = []"
| "calls (Call i # es) = i # calls es"
| "calls (Sleep d # es) = calls es"

fun sleeps :: "event list \<Rightarrow> nat list" where
  "sleeps [] = []"
| "sleeps (Call i # es) = sleeps es"
| "sleeps (Sleep d # es) = d # sleeps es"


lemma calls_append: "calls (xs @ ys) = calls xs @ calls ys"
  by (induction xs rule: calls.induct) auto

lemma sleeps_append: "sleeps (xs @ ys) = sleeps xs @ sleeps ys"
  by (induction xs rule: sleeps.induct) auto

lemma failed_rounds_empty: "failed_rounds config a a = []"
  by (simp add: failed_rounds_def)

lemma failed_rounds_first:
  "a < b \<Longrightarrow> failed_rounds config a b =
     [Call a, Sleep (apiRetryDelay config * 2 ^ a)] @ failed_rounds config (Suc a) b"
  by (simp add: failed_rounds_def upt_conv_Cons)

lemma calls_failed_rounds: "calls (failed_rounds config a b) = [a..<b]"
proof (induction "b - a" arbitrary: a)
  case 0
  then show ?case by (simp add: failed_rounds_def)
next
  case (Suc n)
  then have "a < b" and "n = b - Suc a" by auto
  then show ?case using Suc.hyps(1) [of "Suc a"]
    by (simp add: failed_rounds_first upt_conv_Cons)
qed

lemma sleeps_failed_rounds:
  "sleeps (failed_rounds config a b) = map (\<lambda>i. apiRetryDelay config * 2 ^ i) [a..<b]"
proof (induction "b - a" arbitrary: a)
  case 0
  then show ?case by (simp add: failed_rounds_def)
next
  case (Suc n)
  then have "a < b" and "n = b - Suc a" by auto
  then show ?case using Suc.hyps(1) [of "Suc a"]
    by (simp add: failed_rounds_first upt_conv_Cons)
qed

lemma backoff_sorted: "sorted (map (\<lambda>i. (d::nat) * 2 ^ i) [a..<b])"
  by (auto simp: sorted_map intro!: sorted_wrt_mono_rel [OF _ sorted_upt] power_increasing)

text \<open>The loop on a run of failures that ends in a success at attempt \<open>K\<close>.\<close>

lemma loop_success:
  assumes "K < apiMaxRetries config" and "attempt \<le> K"
    and "\<forall>k. attempt \<le> k \<and> k < K \<longrightarrow> isl (getResponse provider k)"
    and "getResponse provider K = Inr r"
  shows "getLLMResponse_loop s config provider attempt tr =
           (Inr (or_no_response (s r)), tr @ failed_rounds config attempt K @ [Call K])"
  using assms
proof (induction "K - attempt" arbitrary: attempt tr)
  case 0
  then have "attempt = K" by simp
  with 0 show ?case
    by (simp add: getLLMResponse_loop.simps [of s config provider K] failed_rounds_empty)
next
  case (Suc n)
  then have lt: "attempt < K" and n: "n = K - Suc attempt" by auto
  with Suc.prems obtain err where err: "getResponse provider attempt = Inl err"
    by (metis isl_def le_refl)
  have more: "attempt < apiMaxRetries config - 1" using lt Suc.prems(1) by simp
  have "getLLMResponse_loop s config provider attempt tr =
        getLLMResponse_loop s config provider (Suc attempt)
          (tr @ [Call attempt, Sleep (apiRetryDelay config * 2 ^ attempt)])"
    using lt Suc.prems(1) err more
    by (simp add: getLLMResponse_loop.simps [of s config provider attempt])
  also have "\<dots> = (Inr (or_no_response (s r)),
      (tr @ [Call attempt, Sleep (apiRetryDelay config * 2 ^ attempt)])
        @ failed_rounds config (Suc attempt) K @ [Call K])"
    using Suc.hyps(1) [OF n Suc.prems(1)] lt Suc.prems(3,4) by simp
  finally show ?case using lt by (simp add: failed_rounds_first)
qed

text \<open>The loop when every remaining attempt fails.\<close>

lemma loop_all_fail:
  assumes "attempt < apiMaxRetries config"
    and "\<forall>k. attempt \<le> k \<and> k < apiMaxRetries config \<longrightarrow> isl (getResponse provider k)"
  shows "getLLMResponse_loop s config provider attempt tr =
           (Inl (Error (all_failed_message provider config
                   (projl (getResponse provider (apiMaxRetries config - 1))))),
            tr @ failed_rounds config attempt (apiMaxRetries config - 1)
               @ [Call (apiMaxRetries config - 1)])"
  using assms
proof (induction "apiMaxRetries config - 1 - attempt" arbitrary: attempt tr)
  case 0
  then have last: "attempt = apiMaxRetries config - 1" by simp
  from 0 obtain err where err: "getResponse provider attempt = Inl err"
    by (metis isl_def le_refl)
  have "\<not> attempt < apiMaxRetries config - 1" using last by simp
  then show ?case using "0.prems"(1) err last
    by (subst getLLMResponse_loop.simps) (simp add: failed_rounds_empty)
next
  case (Suc n)
  then have more: "attempt < apiMaxRetries config - 1"
    and n: "n = apiMaxRetries config - 1 - Suc attempt" by auto
  from Suc.prems obtain err where err: "getResponse provider attempt = Inl err"
    by (metis isl_def le_refl)
  have "getLLMResponse_loop s config provider attempt tr =
        getLLMResponse_loop s config provider (Suc attempt)
          (tr @ [Call attempt, Sleep (apiRetryDelay config * 2 ^ attempt)])"
    using Suc.prems(1) err more
    by (simp add: getLLMResponse_loop.simps [of s config provider attempt])
  also have "\<dots> = (Inl (Error (all_failed_message provider config
                   (projl (getResponse provider (apiMaxRetries config - 1))))),
      (tr @ [Call attempt, Sleep (apiRetryDelay config * 2 ^ attempt)])
        @ failed_rounds config (Suc attempt) (apiMaxRetries config - 1)
        @ [Call (apiMaxRetries config - 1)])"
    using Suc.hyps(1) [OF n] more Suc.prems(2) by simp
  finally show ?case using more by (simp add: failed_rounds_first)
qed


text \<open>
  Claim C1. With \<open>R = apiMaxRetries \<ge> 1\<close>: when every one of the first \<open>R\<close> calls of
  \<^verbatim>\<open>getResponse\<close> fails, the dispatcher makes exactly the calls \<open>0, \<dots>, R - 1\<close>,
  sleeps \<open>apiRetryDelay * 2 ^ i\<close> after failed attempt \<open>i\<close> for \<open>i < R - 1\<close> (a
  non-decreasing sequence), and then throws the terminal error that carries the
  provider's name and \<open>R\<close>. When attempt \<open>K < R\<close> (counted from 0) is the first to
  succeed, the dispatcher returns the sanitized reply (or the fixed text that stands
  for an empty one) right after call \<open>K\<close>: the trace ends with that call.
\<close>

theorem C1_retry_dispatcher:
  assumes "1 \<le> apiMaxRetries config"
  shows "((\<forall>k < apiMaxRetries config. isl (getResponse provider k)) \<longrightarrow>
           (\<exists>tr. getLLMResponse sanitizeHtml config provider =
                   (Inl (Error (all_failed_message provider config
                      (projl (getResponse provider (apiMaxRetries config - 1))))), tr)
              \<and> tr = failed_rounds config 0 (apiMaxRetries config - 1) @ [Call (apiMaxRetries config - 1)]
              \<and> calls tr = [0..<apiMaxRetries config]
              \<and> length (calls tr) = apiMaxRetries config
              \<and> sleeps tr = map (\<lambda>i. apiRetryDelay config * 2 ^ i) [0..<apiMaxRetries config - 1]
              \<and> sorted (sleeps tr)))
       \<and> (\<forall>K r. K < apiMaxRetries config \<and> (\<forall>k < K. isl (getResponse provider k))
                \<and> getResponse provider K = Inr r \<longrightarrow>
           (\<exists>tr. getLLMResponse sanitizeHtml config provider = (Inr (or_no_response (sanitizeHtml r)), tr)
              \<and> tr = failed_rounds config 0 K @ [Call K]
              \<and> calls tr = [0..<Suc K]
              \<and> sleeps tr = map (\<lambda>i. apiRetryDelay config * 2 ^ i) [0..<K]))"
proof (intro conjI impI allI)
  assume fails: "\<forall>k < apiMaxRetries config. isl (getResponse provider k)"
  let ?R = "apiMaxRetries config"
  let ?tr = "failed_rounds config 0 (?R - 1) @ [Call (?R - 1)]"
  have pos: "0 < ?R" using assms by simp
  have run: "getLLMResponse sanitizeHtml config provider =
      (Inl (Error (all_failed_message provider config (projl (getResponse provider (?R - 1))))), ?tr)"
    unfolding getLLMResponse_def
    using loop_all_fail [OF pos, of provider sanitizeHtml "[]"] fails by simp
  have "[0..<?R - 1] @ [?R - 1] = [0..<?R]"
    using pos by (metis Suc_diff_1 upt_Suc_append zero_le)
  then have c: "calls ?tr = [0..<?R]"
    by (simp add: calls_append calls_failed_rounds)
  have sl: "sleeps ?tr = map (\<lambda>i. apiRetryDelay config * 2 ^ i) [0..<?R - 1]"
    by (simp add: sleeps_append sleeps_failed_rounds)
  have "sorted (sleeps ?tr)"
    unfolding sl by (rule backoff_sorted)
  with run c sl
  show "\<exists>tr. getLLMResponse sanitizeHtml config provider =
                   (Inl (Error (all_failed_message provider config
                      (projl (getResponse provider (apiMaxRetries config - 1))))), tr)
              \<and> tr = failed_rounds config 0 (apiMaxRetries config - 1) @ [Call (apiMaxRetries config - 1)]
              \<and> calls tr = [0..<apiMaxRetries config]
              \<and> length (calls tr) = apiMaxRetries config
              \<and> sleeps tr = map (\<lambda>i. apiRetryDelay config * 2 ^ i) [0..<apiMaxRetries config - 1]
              \<and> sorted (sleeps tr)"
    by simp
next
  fix K r
  assume h: "K < apiMaxRetries config \<and> (\<forall>k < K. isl (getResponse provider k))
                \<and> getResponse provider K = Inr r"
  let ?tr = "failed_rounds config 0 K @ [Call K]"
  have run: "getLLMResponse sanitizeHtml config provider = (Inr (or_no_response (sanitizeHtml r)), ?tr)"
    unfolding getLLMResponse_def
    using loop_success [of K config 0 provider r sanitizeHtml "[]"] h by simp
  have c: "calls ?tr = [0..<Suc K]"
    by (simp add: calls_append calls_failed_rounds)
  have sl: "sleeps ?tr = map (\<lambda>i. apiRetryDelay config * 2 ^ i) [0..<K]"
    by (simp add: sleeps_append sleeps_failed_rounds)
  from run c sl
  show "\<exists>tr. getLLMResponse sanitizeHtml config provider = (Inr (or_no_response (sanitizeHtml r)), tr)
              \<and> tr = failed_rounds config 0 K @ [Call K]
              \<and> calls tr = [0..<Suc K]
              \<and> sleeps tr = map (\<lambda>i. apiRetryDelay config * 2 ^ i) [0..<K]"
    by simp
qed

text \<open>
  The witness: the default settings (3 retries, base delay 1000 ms), on a provider whose
  first two calls fail and whose third answers, and on a provider that is down.
\<close>

definition default_config :: Config where
  "default_config = \<lparr> apiMaxRetries = 3, apiRetryDelay = 1000, maxFiles = 1000,
     maxFileSize = 100000, autoApplyChanges = False,
     includePatterns = [''**/*.{ts,js,py,md}''],
     excludePatterns = [''**/node_modules/**'', ''**/.git/**'', ''**/dist/**'', ''**/build/**'',
       ''**/*.log'', ''**/*.lock'', ''**/*.bak.*''] \<rparr>"

definition third_time_lucky :: LLMProvider where
  "third_time_lucky = \<lparr> getName = ''Ollama'',
     getResponse = (\<lambda>k. if k < 2 then Inl (Error ''timeout'') else Inr ''fine'') \<rparr>"

definition always_down :: LLMProvider where
  "always_down = \<lparr> getName = ''Ollama'', getResponse = (\<lambda>k. Inl (Error ''timeout'')) \<rparr>"

lemma show_nat_digit: "n < 10 \<Longrightarrow> show_nat n = [digit_char n]"
  by (simp add: show_nat.simps)

theorem C1_retry_dispatcher_witness:
  "1 \<le> apiMaxRetries default_config
   \<and> getLLMResponse (\<lambda>x. x) default_config third_time_lucky =
       (Inr ''fine'', [Call 0, Sleep 1000, Call 1, Sleep 2000, Call 2])
   \<and> getLLMResponse (\<lambda>x. x) default_config always_down =
       (Inl (Error ''Failed to fetch Ollama response: timeout (All 3 retries failed)''),
        [Call 0, Sleep 1000, Call 1, Sleep 2000, Call 2])"
proof -
  have one: "1 \<le> apiMaxRetries default_config" by (simp add: default_config_def)
  have "2 < apiMaxRetries default_config \<and> (\<forall>k < 2. isl (getResponse third_time_lucky k))
        \<and> getResponse third_time_lucky 2 = Inr ''fine''"
    by (simp add: default_config_def third_time_lucky_def)
  with C1_retry_dispatcher [OF one, of third_time_lucky "\<lambda>x. x"]
  have "\<exists>tr. getLLMResponse (\<lambda>x. x) default_config third_time_lucky = (Inr (or_no_response ''fine''), tr)
              \<and> tr = failed_rounds default_config 0 2 @ [Call 2]
              \<and> calls tr = [0..<Suc 2]
              \<and> sleeps tr = map (\<lambda>i. apiRetryDelay default_config * 2 ^ i) [0..<2]"
    by blast
  moreover have "\<forall>k < apiMaxRetries default_config. isl (getResponse always_down k)"
    by (simp add: always_down_def)
  with C1_retry_dispatcher [OF one, of always_down "\<lambda>x. x"]
  have "\<exists>tr. getLLMResponse (\<lambda>x. x) default_config always_down =
         (Inl (Error (all_failed_message always_down default_config
            (projl (getResponse always_down (apiMaxRetries default_config - 1))))), tr)
       \<and> tr = failed_rounds default_config 0 (apiMaxRetries default_config - 1)
                @ [Call (apiMaxRetries default_config - 1)]"
    by blast
  moreover have "failed_rounds default_config 0 2 = [Call 0, Sleep 1000, Call 1, Sleep 2000]"
    by (simp add: failed_rounds_def default_config_def upt_conv_Cons)
  moreover have "apiMaxRetries default_config - 1 = 2"
    by (simp add: default_config_def)
  moreover have "all_failed_message always_down default_config (Error ''timeout'') =
      ''Failed to fetch Ollama response: timeout (All 3 retries failed)''"
    by (simp add: all_failed_message_def failed_message_def always_down_def default_config_def
        show_nat_digit digit_char_def)
  ultimately show ?thesis using one by (simp add: or_no_response_def always_down_def)
qed


subsection \<open>Content Loader: \<^verbatim>\<open>readFileContent\<close>\<close>

text \<open>
  The workspace file system answers \<^verbatim>\<open>stat\<close> with the size in bytes and
  \<^verbatim>\<open>readFile\<close> with the bytes, or throws. \<^verbatim>\<open>TextDecoder.decode\<close> is a
  parameter (it is total: by default it replaces invalid sequences). Each function
  returns, with its result, the file-system operations it performed, in order.
\<close>

type_synonym bytes = "char list"

datatype fs_op = Stat string | ReadFile string

record FileSystem =
  stat :: "string \<Rightarrow> js_error + nat"
  readFile :: "string \<Rightarrow> js_error + bytes"

text \<open>\<^verbatim>\<open>extension.ts\<close>, lines 91-112. The limit is the setting \<^verbatim>\<open>maxFileSize\<close>.\<close>

definition too_large_ext :: "nat \<Rightarrow> nat \<Rightarrow> string" where
  "too_large_ext sz limit =
     ''File size ('' @ show_nat sz @ '' bytes) exceeds limit of '' @ show_nat limit @ '' bytes''"

definition read_error_ext :: "string \<Rightarrow> js_error \<Rightarrow> js_error" where
  "read_error_ext fsPath err = Error (''Error reading file '' @ fsPath @ '': '' @ error_message err)"

definition readFileContent_ext ::
  "FileSystem \<Rightarrow> (bytes \<Rightarrow> string) \<Rightarrow> nat \<Rightarrow> string \<Rightarrow> (js_error + string) \<times> fs_op list" where
  "readFileContent_ext fs decode maxFileSize' uri =
     (case stat fs uri of
        Inl err \<Rightarrow> (Inl (read_error_ext uri err), [Stat uri])
      | Inr sz \<Rightarrow>
          if sz > maxFileSize' then
            (Inl (read_error_ext uri (Error (too_large_ext sz maxFileSize'))), [Stat uri])
          else
            (case readFile fs uri of
               Inl err \<Rightarrow> (Inl (read_error_ext uri err), [Stat uri, ReadFile uri])
             | Inr content \<Rightarrow> (Inr (decode content), [Stat uri, ReadFile uri])))"

text \<open>
  part_004, lines 303-320. The optional cache is a map from path to decoded text; the
  function returns the cache as it leaves it.
\<close>

definition too_large :: "nat \<Rightarrow> nat \<Rightarrow> string" where
  "too_large sz limit =
     ''File size ('' @ show_nat sz @ '' bytes) exceeds limit of '' @ show_nat limit"

definition read_error :: "string \<Rightarrow> js_error \<Rightarrow> js_error" where
  "read_error fsPath err = Error (''Failed to read file '' @ fsPath @ '': '' @ error_message err)"

definition cache_get :: "(string \<rightharpoonup> string) option \<Rightarrow> string \<Rightarrow> string option" where
  "cache_get cache key = (case cache of None \<Rightarrow> None | Some m \<Rightarrow> m key)"

definition cache_set :: "(string \<rightharpoonup> string) option \<Rightarrow> string \<Rightarrow> string \<Rightarrow> (string \<rightharpoonup> string) option" where
  "cache_set cache key v = (case cache of None \<Rightarrow> None | Some m \<Rightarrow> Some (m(key \<mapsto> v)))"

definition readFileContent ::
  "FileSystem \<Rightarrow> (bytes \<Rightarrow> string) \<Rightarrow> Config \<Rightarrow> string \<Rightarrow> (string \<rightharpoonup> string) option
     \<Rightarrow> (js_error + string) \<times> (string \<rightharpoonup> string) option \<times> fs_op list" where
  "readFileContent fs decode config uri cache =
     (case stat fs uri of
        Inl err \<Rightarrow> (Inl (read_error uri err), cache, [Stat uri])
      | Inr sz \<Rightarrow>
          if sz > maxFileSize config then
            (Inl (read_error uri (Error (too_large sz (maxFileSize config)))), cache, [Stat uri])
          else
            (case cache_get cache uri of
               Some hit \<Rightarrow> (Inr hit, cache, [Stat uri])
             | None \<Rightarrow>
                 (case readFile fs uri of
                    Inl err \<Rightarrow> (Inl (read_error uri err), cache, [Stat uri, ReadFile uri])
                  | Inr content \<Rightarrow>
                      (Inr (decode content), cache_set cache uri (decode content),
                       [Stat uri, ReadFile uri]))))"

text \<open>
  Claim C3. In both revisions: a file whose size is above the ceiling makes the call
  fail with the error that says so, after the single operation \<^verbatim>\<open>stat\<close> (the
  content is never read, so nothing can be forwarded); a file whose size equals the
  ceiling is read and its decoded content returned (from the cache, in part_004, when
  the cache already holds the path).
\<close>

theorem C3_content_loader_ceiling:
  "(stat fs uri = Inr sz \<and> sz > limit \<longrightarrow>
      readFileContent_ext fs decode limit uri =
        (Inl (read_error_ext uri (Error (too_large_ext sz limit))), [Stat uri]))
   \<and> (stat fs uri = Inr sz \<and> sz > maxFileSize config \<longrightarrow>
      readFileContent fs decode config uri cache =
        (Inl (read_error uri (Error (too_large sz (maxFileSize config)))), cache, [Stat uri]))
   \<and> (stat fs uri = Inr limit \<and> readFile fs uri = Inr content \<longrightarrow>
      readFileContent_ext fs decode limit uri = (Inr (decode content), [Stat uri, ReadFile uri]))
   \<and> (stat fs uri = Inr (maxFileSize config) \<and> readFile fs uri = Inr content
        \<and> cache_get cache uri = None \<longrightarrow>
      readFileContent fs decode config uri cache =
        (Inr (decode content), cache_set cache uri (decode content), [Stat uri, ReadFile uri]))
   \<and> (stat fs uri = Inr (maxFileSize config) \<and> cache_get cache uri = Some hit \<longrightarrow>
      readFileContent fs decode config uri cache = (Inr hit, cache, [Stat uri]))"
  by (simp add: readFileContent_ext_def readFileContent_def)

text \<open>The witness: one file of 100001 bytes and one of exactly 100000 bytes, the default ceiling.\<close>

definition two_files :: FileSystem where
  "two_files = \<lparr> stat = (\<lambda>p. if p = ''big.ts'' then Inr 100001 else Inr 100000),
                  readFile = (\<lambda>p. Inr ''let x = 1'') \<rparr>"

theorem C3_content_loader_ceiling_witness:
  "fst (readFileContent_ext two_files (\<lambda>b. b) 100000 ''big.ts'') =
       Inl (Error ''Error reading file big.ts: File size (100001 bytes) exceeds limit of 100000 bytes'')
   \<and> fst (readFileContent two_files (\<lambda>b. b) default_config ''big.ts'' None) =
       Inl (Error ''Failed to read file big.ts: File size (100001 bytes) exceeds limit of 100000'')
   \<and> readFileContent_ext two_files (\<lambda>b. b) 100000 ''edge.ts'' =
       (Inr ''let x = 1'', [Stat ''edge.ts'', ReadFile ''edge.ts''])
   \<and> fst (readFileContent two_files (\<lambda>b. b) default_config ''edge.ts'' None) = Inr ''let x = 1''
   \<and> fst (readFileContent two_files (\<lambda>b. b) default_config ''edge.ts'' (Some [''edge.ts'' \<mapsto> ''old''])) =
       Inr ''old''"
proof -
  have big: "stat two_files ''big.ts'' = Inr 100001" and edge: "stat two_files ''edge.ts'' = Inr 100000"
    and rd: "readFile two_files ''edge.ts'' = Inr ''let x = 1''"
    and lim: "maxFileSize default_config = 100000"
    by (simp_all add: two_files_def default_config_def)
  have n1: "show_nat 100001 = ''100001''" and n0: "show_nat 100000 = ''100000''"
    by (simp_all add: show_nat.simps digit_char_def)
  note c3 = C3_content_loader_ceiling [of two_files _ _ _ "\<lambda>b. b" default_config]
  show ?thesis
    using c3 [of "''big.ts''" 100001 100000 None "''let x = 1''" "''old''"]
      c3 [of "''edge.ts''" 100000 100000 None "''let x = 1''" "''old''"]
      c3 [of "''edge.ts''" 100000 100000 "Some [''edge.ts'' \<mapsto> ''old'']" "''let x = 1''" "''old''"]
    by (simp add: big edge rd lim n1 n0 too_large_ext_def too_large_def read_error_ext_def
        read_error_def cache_get_def)
qed


subsection \<open>Review Parser: the suggested replacement\<close>



definition nl :: char where
  "nl = CHR 0x0A"
























subsection \<open>Review Parser: the issue list\<close>

text \<open>
  \<^verbatim>\<open>reviewFile\<close> (part_004, lines 458-465) runs
  \<^verbatim>\<open>review.matchAll(/Line (\d+): (\w+ severity) - ([^\n]+)/g)\<close> and pushes one
  record per match: \<^verbatim>\<open>{ line: parseInt(match[1]), severity: match[2], message: match[3] }\<close>.

  \<open>match_issue_at\<close> is one attempt of the backtracking matcher at a start position.
  Each greedy class is followed by a literal character outside the class (\<^verbatim>\<open>\d+\<close>
  by a colon, \<^verbatim>\<open>\w+\<close> by a space, \<^verbatim>\<open>[^\n]+\<close> by the end of the line), so giving
  back characters never helps: the attempt succeeds if and only if it succeeds with the
  longest runs. It returns the record and the text after the match.
  \<open>matchAll_issues\<close> is the iteration: the leftmost match from the current position,
  then on from the end of that match (a match is never empty).
\<close>

record Issue =
  line :: nat
  message :: string
  severity :: string

definition is_digit :: "char \<Rightarrow> bool" where
  "is_digit c = (c \<in> set ''0123456789'')"

definition is_word :: "char \<Rightarrow> bool" where
  "is_word c = (c \<in> set ''abcdefghijklmnopqrstuvwxyzABCDEFGHIJKLMNOPQRSTUVWXYZ0123456789_'')"

definition not_nl :: "char \<Rightarrow> bool" where
  "not_nl c = (c \<noteq> nl)"

definition digit_value :: "char \<Rightarrow> nat" where
  "digit_value c = of_char c - 48"

text \<open>\<^verbatim>\<open>parseInt\<close> on a non-empty run of decimal digits (the only argument it gets here).\<close>

definition parseInt :: "string \<Rightarrow> nat" where
  "parseInt ds = foldl (\<lambda>n c. 10 * n + digit_value c) 0 ds"

fun strip_prefix :: "string \<Rightarrow> string \<Rightarrow> string option" where
  "strip_prefix [] s = Some s"
| "strip_prefix (p # ps) [] = None"
| "strip_prefix (p # ps) (c # cs) = (if p = c then strip_prefix ps cs else None)"

definition match_issue_at :: "string \<Rightarrow> (Issue \<times> string) option" where
  "match_issue_at s =
     (case strip_prefix ''Line '' s of
        None \<Rightarrow> None
      | Some s1 \<Rightarrow>
          if takeWhile is_digit s1 = [] then None
          else
            (case strip_prefix '': '' (dropWhile is_digit s1) of
               None \<Rightarrow> None
             | Some s3 \<Rightarrow>
                 if takeWhile is_word s3 = [] then None
                 else
                   (case strip_prefix '' severity - '' (dropWhile is_word s3) of
                      None \<Rightarrow> None
                    | Some s5 \<Rightarrow>
                        if takeWhile not_nl s5 = [] then None
                        else
                          Some (\<lparr> line = parseInt (takeWhile is_digit s1),
                                  message = takeWhile not_nl s5,
                                  severity = takeWhile is_word s3 @ '' severity'' \<rparr>,
                                dropWhile not_nl s5))))"

lemma strip_prefix_Some: "strip_prefix p s = Some r \<Longrightarrow> s = p @ r"
  by (induction p s rule: strip_prefix.induct) (auto split: if_splits)

lemma strip_prefix_append: "strip_prefix p (p @ r) = Some r"
  by (induction p) auto

lemma match_issue_at_Some:
  assumes "match_issue_at s = Some (i, r)"
  shows "\<exists>ds w m. s = ''Line '' @ ds @ '': '' @ w @ '' severity - '' @ m @ r
           \<and> ds \<noteq> [] \<and> list_all is_digit ds \<and> w \<noteq> [] \<and> list_all is_word w
           \<and> m \<noteq> [] \<and> list_all not_nl m \<and> r = dropWhile not_nl (m @ r)
           \<and> i = \<lparr> line = parseInt ds, message = m, severity = w @ '' severity'' \<rparr>"
proof -
  from assms obtain s1 where s1: "strip_prefix ''Line '' s = Some s1"
    by (auto simp: match_issue_at_def split: option.splits)
  let ?ds = "takeWhile is_digit s1"
  from assms s1 have ds: "?ds \<noteq> []"
    by (auto simp: match_issue_at_def split: option.splits if_splits)
  from assms s1 ds obtain s3 where s3: "strip_prefix '': '' (dropWhile is_digit s1) = Some s3"
    by (auto simp: match_issue_at_def split: option.splits if_splits)
  let ?w = "takeWhile is_word s3"
  from assms s1 ds s3 have w: "?w \<noteq> []"
    by (auto simp: match_issue_at_def split: option.splits if_splits)
  from assms s1 ds s3 w obtain s5 where s5: "strip_prefix '' severity - '' (dropWhile is_word s3) = Some s5"
    by (auto simp: match_issue_at_def split: option.splits if_splits)
  let ?m = "takeWhile not_nl s5"
  from assms s1 ds s3 w s5 have m: "?m \<noteq> []" and r: "r = dropWhile not_nl s5"
    and i: "i = \<lparr> line = parseInt ?ds, message = ?m, severity = ?w @ '' severity'' \<rparr>"
    by (auto simp: match_issue_at_def split: option.splits if_splits)
  have e1: "s = ''Line '' @ s1" using strip_prefix_Some [OF s1] .
  have e2: "s1 = ?ds @ dropWhile is_digit s1" by simp
  have e3: "dropWhile is_digit s1 = '': '' @ s3" using strip_prefix_Some [OF s3] .
  have e4: "s3 = ?w @ dropWhile is_word s3" by simp
  have e5: "dropWhile is_word s3 = '' severity - '' @ s5" using strip_prefix_Some [OF s5] .
  have e6: "s5 = ?m @ r" using r by simp
  have "s = ''Line '' @ ?ds @ '': '' @ ?w @ '' severity - '' @ ?m @ r"
    using e1 e2 e3 e4 e5 e6 by metis
  moreover have "list_all is_digit ?ds" "list_all is_word ?w" "list_all not_nl ?m"
    by (auto simp: list_all_iff dest: set_takeWhileD)
  moreover have "r = dropWhile not_nl (?m @ r)" using e6 r by simp
  ultimately show ?thesis using ds w m i by blast
qed

lemma match_issue_at_shorter: "match_issue_at s = Some (i, r) \<Longrightarrow> length r < length s"
  using match_issue_at_Some [of s i r] by auto

function matchAll_issues :: "string \<Rightarrow> Issue list" where
  "matchAll_issues [] = []"
| "matchAll_issues (c # cs) =
     (case match_issue_at (c # cs) of
        Some (issue, rest) \<Rightarrow> issue # matchAll_issues rest
      | None \<Rightarrow> matchAll_issues cs)"
  by pat_completeness auto
termination
  by (relation "measure length") (auto dest: match_issue_at_shorter)

definition extractIssues :: "string \<Rightarrow> Issue list" where
  "extractIssues review = matchAll_issues review"

text \<open>The lines of a text: the pieces between newline characters.\<close>

fun split_on :: "char \<Rightarrow> string \<Rightarrow> string list" where
  "split_on sep [] = [[]]"
| "split_on sep (c # cs) =
     (if c = sep then [] # split_on sep cs
      else (case split_on sep cs of [] \<Rightarrow> [[c]] | l # ls \<Rightarrow> (c # l) # ls))"



lemma takeWhile_run: "list_all P xs \<Longrightarrow> \<not> P y \<Longrightarrow> takeWhile P (xs @ y # ys) = xs"
  by (induction xs) auto

lemma dropWhile_run: "list_all P xs \<Longrightarrow> \<not> P y \<Longrightarrow> dropWhile P (xs @ y # ys) = y # ys"
  by (induction xs) auto

lemma takeWhile_whole: "list_all P xs \<Longrightarrow> takeWhile P xs = xs"
  by (induction xs) auto

lemma dropWhile_whole: "list_all P xs \<Longrightarrow> dropWhile P xs = []"
  by (induction xs) auto

lemma not_digit_colon: "\<not> is_digit CHR '':''"
  by (simp add: is_digit_def)

lemma not_word_space: "\<not> is_word CHR '' ''"
  by (simp add: is_word_def)

lemma match_issue_at_intro:
  assumes "ds \<noteq> []" "list_all is_digit ds" "w \<noteq> []" "list_all is_word w"
    and "m \<noteq> []" "list_all not_nl m" "r = [] \<or> hd r = nl"
  shows "match_issue_at (''Line '' @ ds @ '': '' @ w @ '' severity - '' @ m @ r) =
           Some (\<lparr> line = parseInt ds, message = m, severity = w @ '' severity'' \<rparr>, r)"
proof -
  have tm: "takeWhile not_nl (m @ r) = m" and dm: "dropWhile not_nl (m @ r) = r"
  proof -
    show "takeWhile not_nl (m @ r) = m"
    proof (cases r)
      case Nil
      then show ?thesis using assms(6) by (simp add: takeWhile_whole)
    next
      case (Cons y ys)
      with assms(7) have "\<not> not_nl y" by (simp add: not_nl_def)
      then show ?thesis using assms(6) Cons by (simp add: takeWhile_run)
    qed
    show "dropWhile not_nl (m @ r) = r"
    proof (cases r)
      case Nil
      then show ?thesis using assms(6) by (simp add: dropWhile_whole)
    next
      case (Cons y ys)
      with assms(7) have "\<not> not_nl y" by (simp add: not_nl_def)
      then show ?thesis using assms(6) Cons by (simp add: dropWhile_run)
    qed
  qed
  show ?thesis
    using assms(1-5) tm dm
    by (simp add: match_issue_at_def takeWhile_run dropWhile_run not_digit_colon not_word_space)
qed









lemma match_issue_at_nl: "match_issue_at (nl # r) = None"
  by (simp add: match_issue_at_def nl_def)

lemma matchAll_issues_nl: "matchAll_issues (nl # r) = matchAll_issues r"
  by (simp add: match_issue_at_nl)


lemma split_on_not_empty: "split_on sep s \<noteq> []"
  by (induction s) (auto split: list.splits)

lemma split_on_no_sep: "sep \<notin> set l \<Longrightarrow> split_on sep l = [l]"
  by (induction l) auto







lemma matchAll_issues_exact:
  assumes "ds \<noteq> []" "list_all is_digit ds" "w \<noteq> []" "list_all is_word w"
    and "m \<noteq> []" "list_all not_nl m"
  shows "matchAll_issues (''Line '' @ ds @ '': '' @ w @ '' severity - '' @ m) =
           [\<lparr> line = parseInt ds, message = m, severity = w @ '' severity'' \<rparr>]"
proof -
  from match_issue_at_intro [OF assms, of "[]"]
  have "match_issue_at (CHR ''L'' # ''ine '' @ ds @ '': '' @ w @ '' severity - '' @ m) =
      Some (\<lparr> line = parseInt ds, message = m, severity = w @ '' severity'' \<rparr>, [])"
    by simp
  then have "matchAll_issues (CHR ''L'' # ''ine '' @ ds @ '': '' @ w @ '' severity - '' @ m) =
      [\<lparr> line = parseInt ds, message = m, severity = w @ '' severity'' \<rparr>]"
    by (simp only: matchAll_issues.simps option.case prod.case)
  then show ?thesis by simp
qed




lemma extract_leak_example:
  "extractIssues ''Line 3: High severity - leak'' =
     [\<lparr> line = 3, message = ''leak'', severity = ''High severity'' \<rparr>]"
proof -
  have "matchAll_issues (''Line '' @ ''3'' @ '': '' @ ''High'' @ '' severity - '' @ ''leak'') =
      [\<lparr> line = parseInt ''3'', message = ''leak'', severity = ''High'' @ '' severity'' \<rparr>]"
    by (rule matchAll_issues_exact) (simp_all add: is_digit_def is_word_def not_nl_def nl_def)
  moreover have "parseInt ''3'' = 3"
    by (simp add: parseInt_def digit_value_def)
  ultimately show ?thesis by (simp add: extractIssues_def)
qed





subsection \<open>Review Parser: what is stored as the severity\<close>

lemma matchAll_issues_severity:
  "i \<in> set (matchAll_issues s) \<Longrightarrow>
     \<exists>w. severity i = w @ '' severity'' \<and> w \<noteq> [] \<and> list_all is_word w"
proof (induction s rule: matchAll_issues.induct)
  case 1
  then show ?case by simp
next
  case (2 c cs)
  show ?case
  proof (cases "match_issue_at (c # cs)")
    case None
    with 2 show ?thesis by simp
  next
    case (Some ir)
    obtain j rest where ir: "ir = (j, rest)" by (cases ir)
    from "2.prems" Some ir have "i = j \<or> i \<in> set (matchAll_issues rest)" by simp
    then show ?thesis
    proof
      assume "i = j"
      with match_issue_at_Some [of "c # cs" j rest] Some ir show ?thesis by auto
    next
      assume "i \<in> set (matchAll_issues rest)"
      with "2.IH" Some ir show ?thesis by blast
    qed
  qed
qed

text \<open>
  Claim C9, as the code has it. The severity stored on an issue is the text captured by
  the group \<^verbatim>\<open>(\w+ severity)\<close>, as it stands in the reply: a non-empty run of word
  characters followed by a space and the word \<^verbatim>\<open>severity\<close>. It is therefore never
  one of the bare tags \<^verbatim>\<open>High\<close>, \<^verbatim>\<open>Medium\<close>, \<^verbatim>\<open>Low\<close>, \<^verbatim>\<open>Info\<close>; the source
  maps the text to a level only where it builds the editor's diagnostics.
\<close>

theorem C9_severity_is_raw_capture:
  "\<forall>i \<in> set (extractIssues review).
     (\<exists>w. severity i = w @ '' severity'' \<and> w \<noteq> [] \<and> list_all is_word w)
     \<and> severity i \<notin> {''High'', ''Medium'', ''Low'', ''Info''}"
proof
  fix i assume "i \<in> set (extractIssues review)"
  then obtain w where w: "severity i = w @ '' severity''" "w \<noteq> []" "list_all is_word w"
    using matchAll_issues_severity [of i review] by (auto simp: extractIssues_def)
  have "last (severity i) = CHR ''y''" using w(1) by simp
  then have "severity i \<notin> {''High'', ''Medium'', ''Low'', ''Info''}" by auto
  with w show "(\<exists>w. severity i = w @ '' severity'' \<and> w \<noteq> [] \<and> list_all is_word w)
     \<and> severity i \<notin> {''High'', ''Medium'', ''Low'', ''Info''}" by blast
qed

theorem C9_severity_is_raw_capture_witness:
  "extractIssues ''Line 3: High severity - leak'' \<noteq> []
   \<and> severity (hd (extractIssues ''Line 3: High severity - leak'')) = ''High severity''
   \<and> severity (hd (extractIssues ''Line 3: High severity - leak'')) \<notin> {''High'', ''Medium'', ''Low'', ''Info''}"
proof -
  have "hd (extractIssues ''Line 3: High severity - leak'') \<in> set (extractIssues ''Line 3: High severity - leak'')"
    by (simp add: extract_leak_example)
  with C9_severity_is_raw_capture [of "''Line 3: High severity - leak''"]
  have "severity (hd (extractIssues ''Line 3: High severity - leak'')) \<notin> {''High'', ''Medium'', ''Low'', ''Info''}"
    by blast
  then show ?thesis by (simp add: extract_leak_example)
qed

text \<open>
  The claim as stated (the stored severity is one of the four normalized tags) fails on
  the reply of the specification's own example.
\<close>

theorem C9_normalized_counterexample:
  "\<not> (\<forall>i \<in> set (extractIssues ''Line 3: High severity - leak'').
         severity i \<in> {''High'', ''Medium'', ''Low'', ''Info''})"
  by (simp add: extract_leak_example)

subsection \<open>Inclusion Filter: \<^verbatim>\<open>shouldIncludeFile\<close>\<close>

text \<open>
  The glob matcher \<^verbatim>\<open>minimatch(path, pattern)\<close> is a library function; the filter
  takes it as the parameter \<open>mm\<close>, a function that answers or throws. The path is the
  workspace-relative path of the file (\<^verbatim>\<open>asRelativePath\<close>).

  \<open>array_some\<close> is \<^verbatim>\<open>Array.prototype.some\<close> with a callback that may throw: it
  stops at the first element that matches, and an exception of the callback leaves the
  loop.
\<close>

fun array_some :: "('a \<Rightarrow> js_error + bool) \<Rightarrow> 'a list \<Rightarrow> js_error + bool" where
  "array_some f [] = Inr False"
| "array_some f (x # xs) =
     (case f x of
        Inl err \<Rightarrow> Inl err
      | Inr hit \<Rightarrow> if hit then Inr True else array_some f xs)"

text \<open>
  \<^verbatim>\<open>extension.ts\<close>, lines 55-89: both lists are tested inside a \<^verbatim>\<open>try\<close>, and the
  \<^verbatim>\<open>catch\<close> logs and returns \<^verbatim>\<open>false\<close>. The two pattern lists are the settings
  \<^verbatim>\<open>includePatterns\<close> and \<^verbatim>\<open>excludePatterns\<close>.
\<close>

definition shouldIncludeFile_ext ::
  "(string \<Rightarrow> string \<Rightarrow> js_error + bool) \<Rightarrow> string \<Rightarrow> string list \<Rightarrow> string list \<Rightarrow> bool" where
  "shouldIncludeFile_ext mm relativePath incl excl =
     (case array_some (mm relativePath) incl of
        Inl err \<Rightarrow> False
      | Inr included \<Rightarrow>
          (case array_some (mm relativePath) excl of
             Inl err \<Rightarrow> False
           | Inr excluded \<Rightarrow> included \<and> \<not> excluded))"

text \<open>
  part_004, lines 295-301: one expression, \<^verbatim>\<open>some(...) && !some(...)\<close>, with no
  \<^verbatim>\<open>try\<close> around it; an exception of the matcher leaves the function.
\<close>

definition shouldIncludeFile ::
  "(string \<Rightarrow> string \<Rightarrow> js_error + bool) \<Rightarrow> string \<Rightarrow> Config \<Rightarrow> js_error + bool" where
  "shouldIncludeFile mm relativePath config =
     (case array_some (mm relativePath) (includePatterns config) of
        Inl err \<Rightarrow> Inl err
      | Inr included \<Rightarrow>
          if included then
            (case array_some (mm relativePath) (excludePatterns config) of
               Inl err \<Rightarrow> Inl err
             | Inr excluded \<Rightarrow> Inr (\<not> excluded))
          else Inr False)"

text \<open>
  Modelled from the spec: the glob matcher itself (the \<^verbatim>\<open>minimatch\<close> package) is not
  in the sources. Section 4.1 asks for \<^verbatim>\<open>**\<close> (arbitrary depth), \<^verbatim>\<open>*\<close> (a wildcard
  within one path segment) and brace alternation \<^verbatim>\<open>{a,b,c}\<close>; the model has these
  three and reads every other character literally. It follows the library in two
  documented points: a wildcard does not match a name that starts with a dot, and a
  pattern of more than 65536 characters is refused with an exception.
\<close>

fun glob_seg :: "string \<Rightarrow> string \<Rightarrow> bool" where
  "glob_seg [] [] = True"
| "glob_seg [] (c # cs) = False"
| "glob_seg (p # ps) [] = (p = CHR ''*'' \<and> glob_seg ps [])"
| "glob_seg (p # ps) (c # cs) =
     (if p = CHR ''*'' then glob_seg ps (c # cs) \<or> glob_seg (p # ps) cs
      else p = c \<and> glob_seg ps cs)"

fun hidden :: "string \<Rightarrow> bool" where
  "hidden [] = False"
| "hidden (c # cs) = (c = CHR ''.'')"

fun starts_with_star :: "string \<Rightarrow> bool" where
  "starts_with_star [] = False"
| "starts_with_star (p # ps) = (p = CHR ''*'')"

definition seg_match :: "string \<Rightarrow> string \<Rightarrow> bool" where
  "seg_match p name = (if starts_with_star p \<and> hidden name then False else glob_seg p name)"

fun match_segs :: "string list \<Rightarrow> string list \<Rightarrow> bool" where
  "match_segs [] [] = True"
| "match_segs [] (f # fs) = (f = [] \<and> fs = [])"
| "match_segs (p # ps) [] = False"
| "match_segs (p # ps) (f # fs) =
     (if p = ''**'' then
        (if ps = [] then list_all (\<lambda>name. \<not> hidden name) (f # fs)
         else match_segs ps (f # fs) \<or> (\<not> hidden f \<and> match_segs (p # ps) fs))
      else seg_match p f \<and> match_segs ps fs)"

lemma length_dropWhile_tl: "dropWhile P xs = y # ys \<Longrightarrow> length ys < length xs"
  using length_dropWhile_le [of P xs] by simp

function braceExpand :: "string \<Rightarrow> string list" where
  "braceExpand s =
     (case dropWhile (\<lambda>c. c \<noteq> CHR ''{'') s of
        [] \<Rightarrow> [s]
      | open_brace # body \<Rightarrow>
          (case dropWhile (\<lambda>c. c \<noteq> CHR ''}'') body of
             [] \<Rightarrow> [s]
           | close_brace # post \<Rightarrow>
               if CHR '','' \<in> set (takeWhile (\<lambda>c. c \<noteq> CHR ''}'') body) then
                 concat (map (\<lambda>alt. map (\<lambda>t. takeWhile (\<lambda>c. c \<noteq> CHR ''{'') s @ alt @ t) (braceExpand post))
                          (split_on CHR '','' (takeWhile (\<lambda>c. c \<noteq> CHR ''}'') body)))
               else
                 map (\<lambda>t. takeWhile (\<lambda>c. c \<noteq> CHR ''{'') s @ ''{''
                           @ takeWhile (\<lambda>c. c \<noteq> CHR ''}'') body @ ''}'' @ t)
                   (braceExpand post)))"
  by pat_completeness auto
termination
proof (relation "measure length")
  show "wf (measure length)" by simp
next
  fix s :: string and open_brace body close_brace post
  assume a: "dropWhile (\<lambda>c. c \<noteq> CHR ''{'') s = open_brace # body"
    and b: "dropWhile (\<lambda>c. c \<noteq> CHR ''}'') body = close_brace # post"
  from length_dropWhile_tl [OF a] length_dropWhile_tl [OF b]
  show "(post, s) \<in> measure length" by simp
next
  fix s :: string and open_brace body close_brace post
  assume a: "dropWhile (\<lambda>c. c \<noteq> CHR ''{'') s = open_brace # body"
    and b: "dropWhile (\<lambda>c. c \<noteq> CHR ''}'') body = close_brace # post"
  from length_dropWhile_tl [OF a] length_dropWhile_tl [OF b]
  show "(post, s) \<in> measure length" by simp
qed

declare braceExpand.simps [simp del]

definition minimatch :: "string \<Rightarrow> string \<Rightarrow> js_error + bool" where
  "minimatch path pattern =
     (if length pattern > 65536 then Inl (Error ''pattern is too long'')
      else Inr (list_ex (\<lambda>q. match_segs (split_on CHR ''/'' q) (split_on CHR ''/'' path))
                  (braceExpand pattern)))"

lemma array_some_answers:
  "\<forall>p \<in> set ps. f p = Inr (g p) \<Longrightarrow> array_some f ps = Inr (list_ex g ps)"
  by (induction ps) auto

lemma array_some_throws:
  "array_some f ps = Inl err \<longleftrightarrow>
     (\<exists>pre p post. ps = pre @ p # post \<and> (\<forall>q \<in> set pre. f q = Inr False) \<and> f p = Inl err)"
proof (induction ps)
  case Nil
  show ?case by simp
next
  case (Cons x xs)
  show ?case
  proof (cases "f x")
    case (Inl e)
    show ?thesis
    proof
      assume "array_some f (x # xs) = Inl err"
      with Inl have "f x = Inl err" by simp
      then have "x # xs = [] @ x # xs \<and> (\<forall>q \<in> set []. f q = Inr False) \<and> f x = Inl err" by simp
      then show "\<exists>pre p post. x # xs = pre @ p # post \<and> (\<forall>q \<in> set pre. f q = Inr False) \<and> f p = Inl err"
        by blast
    next
      assume "\<exists>pre p post. x # xs = pre @ p # post \<and> (\<forall>q \<in> set pre. f q = Inr False) \<and> f p = Inl err"
      then obtain pre p post where h: "x # xs = pre @ p # post" "\<forall>q \<in> set pre. f q = Inr False" "f p = Inl err"
        by blast
      with Inl have "pre = []" by (cases pre) auto
      with h Inl show "array_some f (x # xs) = Inl err" by simp
    qed
  next
    case (Inr hit)
    show ?thesis
    proof (cases hit)
      case True
      have "\<not> (\<exists>pre p post. x # xs = pre @ p # post \<and> (\<forall>q \<in> set pre. f q = Inr False) \<and> f p = Inl err)"
      proof
        assume "\<exists>pre p post. x # xs = pre @ p # post \<and> (\<forall>q \<in> set pre. f q = Inr False) \<and> f p = Inl err"
        then obtain pre p post where h: "x # xs = pre @ p # post" "\<forall>q \<in> set pre. f q = Inr False" "f p = Inl err"
          by blast
        with Inr True show False by (cases pre) auto
      qed
      with Inr True show ?thesis by simp
    next
      case False
      have "(\<exists>pre p post. x # xs = pre @ p # post \<and> (\<forall>q \<in> set pre. f q = Inr False) \<and> f p = Inl err)
        \<longleftrightarrow> (\<exists>pre p post. xs = pre @ p # post \<and> (\<forall>q \<in> set pre. f q = Inr False) \<and> f p = Inl err)"
      proof
        assume "\<exists>pre p post. x # xs = pre @ p # post \<and> (\<forall>q \<in> set pre. f q = Inr False) \<and> f p = Inl err"
        then obtain pre p post where h: "x # xs = pre @ p # post" "\<forall>q \<in> set pre. f q = Inr False" "f p = Inl err"
          by blast
        with Inr obtain pre' where "pre = x # pre'" by (cases pre) auto
        with h have "xs = pre' @ p # post \<and> (\<forall>q \<in> set pre'. f q = Inr False) \<and> f p = Inl err" by simp
        then show "\<exists>pre p post. xs = pre @ p # post \<and> (\<forall>q \<in> set pre. f q = Inr False) \<and> f p = Inl err"
          by blast
      next
        assume "\<exists>pre p post. xs = pre @ p # post \<and> (\<forall>q \<in> set pre. f q = Inr False) \<and> f p = Inl err"
        then obtain pre p post where h: "xs = pre @ p # post" "\<forall>q \<in> set pre. f q = Inr False" "f p = Inl err"
          by blast
        with Inr False have "x # xs = (x # pre) @ p # post \<and> (\<forall>q \<in> set (x # pre). f q = Inr False) \<and> f p = Inl err"
          by simp
        then show "\<exists>pre p post. x # xs = pre @ p # post \<and> (\<forall>q \<in> set pre. f q = Inr False) \<and> f p = Inl err"
          by blast
      qed
      with Inr False Cons show ?thesis by simp
    qed
  qed
qed

text \<open>
  When the matcher answers on every pattern, both revisions compute the same thing: the
  path is included if and only if some include pattern matches and no exclude pattern
  does.
\<close>

lemma shouldIncludeFile_ext_iff:
  assumes "\<forall>p \<in> set incl \<union> set excl. mm path p = Inr (matches p)"
  shows "shouldIncludeFile_ext mm path incl excl \<longleftrightarrow>
           (\<exists>p \<in> set incl. matches p) \<and> \<not> (\<exists>p \<in> set excl. matches p)"
proof -
  have "array_some (mm path) incl = Inr (list_ex matches incl)"
    and "array_some (mm path) excl = Inr (list_ex matches excl)"
    using assms by (auto intro: array_some_answers)
  then show ?thesis by (simp add: shouldIncludeFile_ext_def list_ex_iff)
qed

lemma shouldIncludeFile_iff:
  assumes "\<forall>p \<in> set (includePatterns config) \<union> set (excludePatterns config). mm path p = Inr (matches p)"
  shows "shouldIncludeFile mm path config =
           Inr ((\<exists>p \<in> set (includePatterns config). matches p)
                \<and> \<not> (\<exists>p \<in> set (excludePatterns config). matches p))"
proof -
  have "array_some (mm path) (includePatterns config) = Inr (list_ex matches (includePatterns config))"
    and "array_some (mm path) (excludePatterns config) = Inr (list_ex matches (excludePatterns config))"
    using assms by (auto intro: array_some_answers)
  then show ?thesis by (simp add: shouldIncludeFile_def list_ex_iff)
qed

text \<open>\<^verbatim>\<open>extension.ts\<close> fails closed: an exception while matching either list gives \<open>False\<close>.\<close>

lemma shouldIncludeFile_ext_fail_closed:
  "array_some (mm path) incl = Inl err \<or> array_some (mm path) excl = Inl err \<Longrightarrow>
     \<not> shouldIncludeFile_ext mm path incl excl"
  by (auto simp: shouldIncludeFile_ext_def split: sum.splits)

text \<open>part_004 does not: the exception is the result.\<close>

lemma shouldIncludeFile_propagates:
  "array_some (mm path) (includePatterns config) = Inl err \<Longrightarrow>
     shouldIncludeFile mm path config = Inl err"
  by (simp add: shouldIncludeFile_def)

definition overlong_pattern :: string where
  "overlong_pattern = replicate 65537 (CHR ''a'')"

text \<open>
  Claim C4 at a concrete input. One include pattern of 65537 characters, which the
  matcher refuses: the filter of part_004 throws, where the claim (and the filter of
  \<^verbatim>\<open>extension.ts\<close>) answer \<^verbatim>\<open>false\<close>.
\<close>

theorem C4_part_004_not_fail_closed:
  "shouldIncludeFile minimatch ''src/a.ts'' (default_config \<lparr> includePatterns := [overlong_pattern] \<rparr>)
     = Inl (Error ''pattern is too long'')
   \<and> shouldIncludeFile_ext minimatch ''src/a.ts'' [overlong_pattern] (excludePatterns default_config)
     = False"
  by (simp add: shouldIncludeFile_def shouldIncludeFile_ext_def minimatch_def overlong_pattern_def)

subsection \<open>File Mutation Gate: \<^verbatim>\<open>applyFileChanges\<close> and \<^verbatim>\<open>applyFileContent\<close>\<close>

text \<open>
  The disk is a map from path to content. What the gate cannot decide by itself comes
  from the environment of one run: the two clock readings, the temporary directory, the
  user's answer, and which of the operations fail. The assumptions on the editor's API
  are written into the operations below: a document opens with the content of its file
  on disk; \<^verbatim>\<open>workspace.fs.copy\<close> (called without the overwrite option) fails when the
  source is missing or the target exists; a save either writes the whole buffer or, when
  it fails, leaves the file as it was. Each run returns its result, the disk it leaves
  and the list of its effects in order.
\<close>

type_synonym disk = "string \<rightharpoonup> string"

datatype answer = Apply | Cancel | Dismissed

datatype gate_event =
    TempWritten string
  | DiffShown
  | Asked
  | TempRemoved string
  | BackedUp string string
  | Edited
  | Saved string

record gate_env =
  now_temp :: nat
  now_backup :: nat
  tmpdir :: string
  open_fails :: "js_error option"
  temp_write_fails :: "js_error option"
  diff_fails :: "js_error option"
  user_answer :: answer
  copy_fails :: "js_error option"
  edit_applied :: bool
  save_result :: "js_error + bool"

definition basename :: "string \<Rightarrow> string" where
  "basename p = rev (takeWhile (\<lambda>c. c \<noteq> CHR ''/'') (rev p))"

definition join :: "string \<Rightarrow> string \<Rightarrow> string" where
  "join dir name = dir @ ''/'' @ name"

definition openTextDocument :: "gate_env \<Rightarrow> disk \<Rightarrow> string \<Rightarrow> js_error + string" where
  "openTextDocument env d uri =
     (case open_fails env of
        Some err \<Rightarrow> Inl err
      | None \<Rightarrow> (case d uri of None \<Rightarrow> Inl (Error ''FileNotFound'') | Some text \<Rightarrow> Inr text))"

definition fs_copy :: "gate_env \<Rightarrow> disk \<Rightarrow> string \<Rightarrow> string \<Rightarrow> js_error + disk" where
  "fs_copy env d source target =
     (case copy_fails env of
        Some err \<Rightarrow> Inl err
      | None \<Rightarrow>
          (case d source of
             None \<Rightarrow> Inl (Error ''FileNotFound'')
           | Some content \<Rightarrow>
               if d target \<noteq> None then Inl (Error ''FileExists'')
               else Inr (d(target \<mapsto> content))))"

text \<open>
  The block under \<^verbatim>\<open>if (!autoApply)\<close>, the same in both revisions: write the proposal
  to a temporary file, show the diff, ask, remove the temporary file (errors of the
  removal are swallowed). The result is whether the user chose \<^verbatim>\<open>Apply\<close>.
\<close>

definition temp_path :: "gate_env \<Rightarrow> string \<Rightarrow> string" where
  "temp_path env uri = join (tmpdir env) (basename uri @ ''.suggested.'' @ show_nat (now_temp env))"

definition confirm :: "gate_env \<Rightarrow> string \<Rightarrow> string \<Rightarrow> disk \<Rightarrow> (js_error + bool) \<times> disk \<times> gate_event list" where
  "confirm env uri newContent d =
     (case temp_write_fails env of
        Some err \<Rightarrow> (Inl err, d, [])
      | None \<Rightarrow>
          (case diff_fails env of
             Some err \<Rightarrow>
               (Inl err, d(temp_path env uri \<mapsto> newContent), [TempWritten (temp_path env uri)])
           | None \<Rightarrow>
               (Inr (user_answer env = Apply),
                (d(temp_path env uri \<mapsto> newContent))(temp_path env uri := None),
                [TempWritten (temp_path env uri), DiffShown, Asked, TempRemoved (temp_path env uri)])))"

text \<open>
  \<^verbatim>\<open>applyEdit\<close> replaces the buffer (when the editor accepts the edit) and
  \<^verbatim>\<open>document.save()\<close> writes the buffer to the file. Neither result is inspected by
  the source; only an exception of \<^verbatim>\<open>save\<close> is seen.
\<close>

definition edit_and_save ::
  "gate_env \<Rightarrow> string \<Rightarrow> string \<Rightarrow> string \<Rightarrow> disk \<Rightarrow> (js_error + unit) \<times> disk \<times> gate_event list" where
  "edit_and_save env uri current newContent d =
     (case save_result env of
        Inl err \<Rightarrow> (Inl err, d, [Edited])
      | Inr written \<Rightarrow>
          if written then
            (Inr (), d(uri \<mapsto> (if edit_applied env then newContent else current)), [Edited, Saved uri])
          else (Inr (), d, [Edited]))"

text \<open>\<^verbatim>\<open>extension.ts\<close>, lines 114-128 and 130-195. Every exception ends in the \<^verbatim>\<open>catch\<close>, which returns \<^verbatim>\<open>false\<close>.\<close>

definition backup_path_ext :: "string \<Rightarrow> nat \<Rightarrow> string" where
  "backup_path_ext fsPath timestamp = fsPath @ ''.bak.'' @ show_nat timestamp"

definition backupFile_ext :: "gate_env \<Rightarrow> disk \<Rightarrow> string \<Rightarrow> js_error + (string \<times> disk)" where
  "backupFile_ext env d uri =
     (case fs_copy env d uri (backup_path_ext uri (now_backup env)) of
        Inl err \<Rightarrow> Inl (Error (''Failed to create backup for '' @ uri @ '': '' @ error_message err))
      | Inr d' \<Rightarrow> Inr (backup_path_ext uri (now_backup env), d'))"

definition backup_and_write_ext ::
  "gate_env \<Rightarrow> string \<Rightarrow> string \<Rightarrow> string \<Rightarrow> disk \<Rightarrow> gate_event list \<Rightarrow> bool \<times> disk \<times> gate_event list" where
  "backup_and_write_ext env uri current newContent d events =
     (case backupFile_ext env d uri of
        Inl err \<Rightarrow> (False, d, events)
      | Inr (backupUri, d') \<Rightarrow>
          (case edit_and_save env uri current newContent d' of
             (Inl err, d'', events') \<Rightarrow> (False, d'', events @ [BackedUp uri backupUri] @ events')
           | (Inr done, d'', events') \<Rightarrow> (True, d'', events @ [BackedUp uri backupUri] @ events')))"

definition applyFileChanges ::
  "gate_env \<Rightarrow> bool \<Rightarrow> string \<Rightarrow> string \<Rightarrow> disk \<Rightarrow> bool \<times> disk \<times> gate_event list" where
  "applyFileChanges env autoApply uri newContent d =
     (case openTextDocument env d uri of
        Inl err \<Rightarrow> (False, d, [])
      | Inr currentContent \<Rightarrow>
          if currentContent = newContent then (False, d, [])
          else if \<not> autoApply then
            (case confirm env uri newContent d of
               (Inl err, d', events) \<Rightarrow> (False, d', events)
             | (Inr apply, d', events) \<Rightarrow>
                 if \<not> apply then (False, d', events)
                 else backup_and_write_ext env uri currentContent newContent d' events)
          else backup_and_write_ext env uri currentContent newContent d [])"

text \<open>part_004, lines 322-327 and 329-356. Nothing is caught: an exception is the result.\<close>

definition backup_path :: "string \<Rightarrow> nat \<Rightarrow> string" where
  "backup_path fsPath timestamp = fsPath @ ''.bak'' @ show_nat timestamp"

definition backupFile :: "gate_env \<Rightarrow> disk \<Rightarrow> string \<Rightarrow> js_error + (string \<times> disk)" where
  "backupFile env d uri =
     (case fs_copy env d uri (backup_path uri (now_backup env)) of
        Inl err \<Rightarrow> Inl err
      | Inr d' \<Rightarrow> Inr (backup_path uri (now_backup env), d'))"

definition backup_and_write ::
  "gate_env \<Rightarrow> string \<Rightarrow> string \<Rightarrow> string \<Rightarrow> disk \<Rightarrow> gate_event list
     \<Rightarrow> (js_error + bool) \<times> disk \<times> gate_event list" where
  "backup_and_write env uri current newContent d events =
     (case backupFile env d uri of
        Inl err \<Rightarrow> (Inl err, d, events)
      | Inr (backupUri, d') \<Rightarrow>
          (case edit_and_save env uri current newContent d' of
             (Inl err, d'', events') \<Rightarrow> (Inl err, d'', events @ [BackedUp uri backupUri] @ events')
           | (Inr done, d'', events') \<Rightarrow> (Inr True, d'', events @ [BackedUp uri backupUri] @ events')))"

definition applyFileContent ::
  "gate_env \<Rightarrow> Config \<Rightarrow> string \<Rightarrow> string \<Rightarrow> disk \<Rightarrow> (js_error + bool) \<times> disk \<times> gate_event list" where
  "applyFileContent env config uri newContent d =
     (case openTextDocument env d uri of
        Inl err \<Rightarrow> (Inl err, d, [])
      | Inr currentContent \<Rightarrow>
          if currentContent = newContent then (Inr False, d, [])
          else if \<not> autoApplyChanges config then
            (case confirm env uri newContent d of
               (Inl err, d', events) \<Rightarrow> (Inl err, d', events)
             | (Inr apply, d', events) \<Rightarrow>
                 if \<not> apply then (Inr False, d', events)
                 else backup_and_write env uri currentContent newContent d' events)
          else backup_and_write env uri currentContent newContent d [])"

fun backups :: "gate_event list \<Rightarrow> (string \<times> string) list" where
  "backups [] = []"
| "backups (BackedUp source target # es) = (source, target) # backups es"
| "backups (e # es) = backups es"

lemma show_nat_digits: "set (show_nat n) \<subseteq> set ''0123456789''"
proof (induction n rule: show_nat.induct)
  case (1 n)
  have d: "digit_char k \<in> set ''0123456789''" if "k < 10" for k
    unfolding digit_char_def using that by (intro nth_mem) simp
  show ?case
  proof (cases "n < 10")
    case True
    then show ?thesis using d [of n] by (simp add: show_nat.simps [of n])
  next
    case False
    have "n mod 10 < 10" by simp
    from d [OF this] 1 False show ?thesis by (simp add: show_nat.simps [of n])
  qed
qed

lemma show_nat_no_slash: "CHR ''/'' \<notin> set (show_nat n)"
  using show_nat_digits [of n] by auto

lemma basename_no_slash: "CHR ''/'' \<notin> set (basename p)"
  by (auto simp: basename_def dest: set_takeWhileD)

lemma basename_join: "CHR ''/'' \<notin> set name \<Longrightarrow> basename (join dir name) = name"
proof -
  assume "CHR ''/'' \<notin> set name"
  then have "list_all (\<lambda>c. c \<noteq> CHR ''/'') (rev name)" by (auto simp: list_all_iff)
  then have "takeWhile (\<lambda>c. c \<noteq> CHR ''/'') (rev name @ CHR ''/'' # rev dir) = rev name"
    by (rule takeWhile_run) simp
  then show ?thesis by (simp add: basename_def join_def)
qed

text \<open>The temporary file and the backup are never the target itself.\<close>

lemma temp_path_not_target: "temp_path env uri \<noteq> uri"
proof
  assume eq: "temp_path env uri = uri"
  have "CHR ''/'' \<notin> set (basename uri @ ''.suggested.'' @ show_nat (now_temp env))"
    using basename_no_slash [of uri] show_nat_no_slash [of "now_temp env"] by simp
  then have "basename (temp_path env uri) = basename uri @ ''.suggested.'' @ show_nat (now_temp env)"
    unfolding temp_path_def by (rule basename_join)
  with eq have "length (basename uri) = length (basename uri @ ''.suggested.'' @ show_nat (now_temp env))"
    by simp
  then show False by simp
qed

lemma backup_path_ext_not_target: "backup_path_ext uri t \<noteq> uri"
  by (simp add: backup_path_ext_def)

lemma backup_path_not_target: "backup_path uri t \<noteq> uri"
  by (simp add: backup_path_def)

lemma backups_append: "backups (xs @ ys) = backups xs @ backups ys"
  by (induction xs rule: backups.induct) auto

lemma confirm_frame:
  assumes "confirm env uri newContent d = (r, d', events)"
  shows "d' uri = d uri" and "backups events = []" and "Saved uri \<notin> set events"
    and "r = Inr True \<longrightarrow> user_answer env = Apply \<and> (\<forall>p. d p = None \<longrightarrow> d' p = None)"
  using assms temp_path_not_target [of env uri]
  by (auto simp: confirm_def split: option.splits)

text \<open>The three ways the second half of the gate can end, in \<^verbatim>\<open>extension.ts\<close>.\<close>

lemma backup_and_write_ext_cases:
  assumes "backup_and_write_ext env uri current newContent d events0 = (res, d', events)"
    and "d uri = Some current"
  shows "(events = events0 \<and> d' = d \<and> \<not> res)
       \<or> (events = events0 @ [BackedUp uri (backup_path_ext uri (now_backup env)), Edited]
            \<and> d' = d(backup_path_ext uri (now_backup env) \<mapsto> current)
            \<and> save_result env \<noteq> Inr True)
       \<or> (events = events0 @ [BackedUp uri (backup_path_ext uri (now_backup env)), Edited, Saved uri]
            \<and> d' = (d(backup_path_ext uri (now_backup env) \<mapsto> current))
                      (uri \<mapsto> (if edit_applied env then newContent else current))
            \<and> save_result env = Inr True \<and> res)"
  using assms
  by (auto simp: backup_and_write_ext_def backupFile_ext_def fs_copy_def edit_and_save_def
      split: option.splits sum.splits if_splits)

lemma backup_and_write_cases:
  assumes "backup_and_write env uri current newContent d events0 = (res, d', events)"
    and "d uri = Some current"
  shows "(events = events0 \<and> d' = d \<and> isl res)
       \<or> (events = events0 @ [BackedUp uri (backup_path uri (now_backup env)), Edited]
            \<and> d' = d(backup_path uri (now_backup env) \<mapsto> current)
            \<and> save_result env \<noteq> Inr True)
       \<or> (events = events0 @ [BackedUp uri (backup_path uri (now_backup env)), Edited, Saved uri]
            \<and> d' = (d(backup_path uri (now_backup env) \<mapsto> current))
                      (uri \<mapsto> (if edit_applied env then newContent else current))
            \<and> save_result env = Inr True \<and> res = Inr True)"
  using assms
  by (auto simp: backup_and_write_def backupFile_def fs_copy_def edit_and_save_def
      split: option.splits sum.splits if_splits)

text \<open>What holds of every run of the gate, whatever fails. First \<^verbatim>\<open>extension.ts\<close>.\<close>

lemma applyFileChanges_safe:
  assumes run: "applyFileChanges env autoApply uri newContent d = (res, d', events)"
    and opened: "openTextDocument env d uri = Inr current"
  shows "length (backups events) \<le> 1"
    and "Saved uri \<in> set events \<longrightarrow>
           (\<exists>pre. events = pre @ [BackedUp uri (backup_path_ext uri (now_backup env)), Edited, Saved uri]
                  \<and> backups pre = [])
           \<and> d' (backup_path_ext uri (now_backup env)) = Some current"
    and "Saved uri \<notin> set events \<longrightarrow> d' uri = d uri"
    and "res \<longrightarrow> backups events = [(uri, backup_path_ext uri (now_backup env))]"
proof -
  let ?b = "backup_path_ext uri (now_backup env)"
  from opened have cur: "d uri = Some current"
    by (auto simp: openTextDocument_def split: option.splits)
  have nb: "?b \<noteq> uri" by (rule backup_path_ext_not_target)
  consider (same) "current = newContent"
    | (asked_no) r d1 ev1 where "current \<noteq> newContent" "\<not> autoApply"
        "confirm env uri newContent d = (r, d1, ev1)" "r \<noteq> Inr True" "res = False" "d' = d1" "events = ev1"
    | (asked_yes) d1 ev1 where "current \<noteq> newContent" "\<not> autoApply"
        "confirm env uri newContent d = (Inr True, d1, ev1)"
        "backup_and_write_ext env uri current newContent d1 ev1 = (res, d', events)"
    | (auto) "current \<noteq> newContent" "autoApply"
        "backup_and_write_ext env uri current newContent d [] = (res, d', events)"
  proof (cases "current = newContent")
    case True
    then show ?thesis using that by blast
  next
    case differs: False
    show ?thesis
    proof (cases autoApply)
      case True
      with differs run opened have "backup_and_write_ext env uri current newContent d [] = (res, d', events)"
        by (simp add: applyFileChanges_def)
      with differs True show ?thesis using that by blast
    next
      case False
      obtain r d1 ev1 where c: "confirm env uri newContent d = (r, d1, ev1)"
        by (cases "confirm env uri newContent d") auto
      show ?thesis
      proof (cases "r = Inr True")
        case True
        with differs False run opened c
        have "backup_and_write_ext env uri current newContent d1 ev1 = (res, d', events)"
          by (simp add: applyFileChanges_def)
        with differs False c True show ?thesis using that by blast
      next
        case no: False
        with differs False run opened c have "res = False" "d' = d1" "events = ev1"
          by (auto simp: applyFileChanges_def split: sum.splits if_splits)
        with differs False c no show ?thesis using that by blast
      qed
    qed
  qed
  then have "length (backups events) \<le> 1
    \<and> (Saved uri \<in> set events \<longrightarrow>
           (\<exists>pre. events = pre @ [BackedUp uri ?b, Edited, Saved uri] \<and> backups pre = [])
           \<and> d' ?b = Some current)
    \<and> (Saved uri \<notin> set events \<longrightarrow> d' uri = d uri)
    \<and> (res \<longrightarrow> backups events = [(uri, ?b)])"
  proof cases
    case same
    with run opened show ?thesis by (simp add: applyFileChanges_def)
  next
    case (asked_no r d1 ev1)
    with confirm_frame(1-3) [OF asked_no(3)] show ?thesis by simp
  next
    case (asked_yes d1 ev1)
    note f = confirm_frame(1-3) [OF asked_yes(3)]
    from f(1) cur have "d1 uri = Some current" by simp
    from backup_and_write_ext_cases [OF asked_yes(4) this] f nb cur
    show ?thesis by (auto simp: backups_append)
  next
    case auto
    from backup_and_write_ext_cases [OF auto(3) cur] nb cur
    show ?thesis by (auto simp: backups_append)
  qed
  then show "length (backups events) \<le> 1"
    and "Saved uri \<in> set events \<longrightarrow>
           (\<exists>pre. events = pre @ [BackedUp uri (backup_path_ext uri (now_backup env)), Edited, Saved uri]
                  \<and> backups pre = [])
           \<and> d' (backup_path_ext uri (now_backup env)) = Some current"
    and "Saved uri \<notin> set events \<longrightarrow> d' uri = d uri"
    and "res \<longrightarrow> backups events = [(uri, backup_path_ext uri (now_backup env))]"
    by blast+
qed

text \<open>The same for part_004, where an exception is a result.\<close>

lemma applyFileContent_safe:
  assumes run: "applyFileContent env config uri newContent d = (res, d', events)"
    and opened: "openTextDocument env d uri = Inr current"
  shows "length (backups events) \<le> 1"
    and "Saved uri \<in> set events \<longrightarrow>
           (\<exists>pre. events = pre @ [BackedUp uri (backup_path uri (now_backup env)), Edited, Saved uri]
                  \<and> backups pre = [])
           \<and> d' (backup_path uri (now_backup env)) = Some current"
    and "Saved uri \<notin> set events \<longrightarrow> d' uri = d uri"
    and "res = Inr True \<longrightarrow> backups events = [(uri, backup_path uri (now_backup env))]"
proof -
  let ?b = "backup_path uri (now_backup env)"
  from opened have cur: "d uri = Some current"
    by (auto simp: openTextDocument_def split: option.splits)
  have nb: "?b \<noteq> uri" by (rule backup_path_not_target)
  consider (same) "current = newContent"
    | (asked_no) r d1 ev1 where "current \<noteq> newContent" "\<not> autoApplyChanges config"
        "confirm env uri newContent d = (r, d1, ev1)" "r \<noteq> Inr True" "res \<noteq> Inr True" "d' = d1" "events = ev1"
    | (asked_yes) d1 ev1 where "current \<noteq> newContent" "\<not> autoApplyChanges config"
        "confirm env uri newContent d = (Inr True, d1, ev1)"
        "backup_and_write env uri current newContent d1 ev1 = (res, d', events)"
    | (auto) "current \<noteq> newContent" "autoApplyChanges config"
        "backup_and_write env uri current newContent d [] = (res, d', events)"
  proof (cases "current = newContent")
    case True
    then show ?thesis using that by blast
  next
    case differs: False
    show ?thesis
    proof (cases "autoApplyChanges config")
      case True
      with differs run opened have "backup_and_write env uri current newContent d [] = (res, d', events)"
        by (simp add: applyFileContent_def)
      with differs True show ?thesis using that by blast
    next
      case False
      obtain r d1 ev1 where c: "confirm env uri newContent d = (r, d1, ev1)"
        by (cases "confirm env uri newContent d") auto
      show ?thesis
      proof (cases "r = Inr True")
        case True
        with differs False run opened c
        have "backup_and_write env uri current newContent d1 ev1 = (res, d', events)"
          by (simp add: applyFileContent_def)
        with differs False c True show ?thesis using that by blast
      next
        case no: False
        with differs False run opened c have "res \<noteq> Inr True" "d' = d1" "events = ev1"
          by (auto simp: applyFileContent_def split: sum.splits if_splits)
        with differs False c no show ?thesis using that by blast
      qed
    qed
  qed
  then have "length (backups events) \<le> 1
    \<and> (Saved uri \<in> set events \<longrightarrow>
           (\<exists>pre. events = pre @ [BackedUp uri ?b, Edited, Saved uri] \<and> backups pre = [])
           \<and> d' ?b = Some current)
    \<and> (Saved uri \<notin> set events \<longrightarrow> d' uri = d uri)
    \<and> (res = Inr True \<longrightarrow> backups events = [(uri, ?b)])"
  proof cases
    case same
    with run opened show ?thesis by (auto simp: applyFileContent_def)
  next
    case (asked_no r d1 ev1)
    with confirm_frame(1-3) [OF asked_no(3)] show ?thesis by simp
  next
    case (asked_yes d1 ev1)
    note f = confirm_frame(1-3) [OF asked_yes(3)]
    from f(1) cur have "d1 uri = Some current" by simp
    from backup_and_write_cases [OF asked_yes(4) this] f nb cur
    show ?thesis by (auto simp: backups_append)
  next
    case auto
    from backup_and_write_cases [OF auto(3) cur] nb cur
    show ?thesis by (auto simp: backups_append)
  qed
  then show "length (backups events) \<le> 1"
    and "Saved uri \<in> set events \<longrightarrow>
           (\<exists>pre. events = pre @ [BackedUp uri (backup_path uri (now_backup env)), Edited, Saved uri]
                  \<and> backups pre = [])
           \<and> d' (backup_path uri (now_backup env)) = Some current"
    and "Saved uri \<notin> set events \<longrightarrow> d' uri = d uri"
    and "res = Inr True \<longrightarrow> backups events = [(uri, backup_path uri (now_backup env))]"
    by blast+
qed

text \<open>A save that fails (throws, or answers \<^verbatim>\<open>false\<close>) leaves the target as it was.\<close>

lemma edit_and_save_failed:
  "save_result env \<noteq> Inr True \<Longrightarrow> edit_and_save env uri current newContent d = (r, d', events)
     \<Longrightarrow> d' = d \<and> Saved uri \<notin> set events"
  by (auto simp: edit_and_save_def split: sum.splits if_splits)

lemma applyFileChanges_saved_only_if:
  assumes "applyFileChanges env autoApply uri newContent d = (res, d', events)"
    and "Saved uri \<in> set events"
  shows "save_result env = Inr True"
  using assms
  by (auto simp: applyFileChanges_def confirm_def backup_and_write_ext_def backupFile_ext_def
      edit_and_save_def split: sum.splits option.splits if_splits prod.splits)

lemma applyFileChanges_write_fails:
  assumes "applyFileChanges env autoApply uri newContent d = (res, d', events)"
    and "save_result env \<noteq> Inr True"
  shows "d' uri = d uri"
proof (cases "openTextDocument env d uri")
  case (Inl err)
  with assms(1) show ?thesis by (simp add: applyFileChanges_def)
next
  case (Inr current)
  have "Saved uri \<notin> set events"
    using applyFileChanges_saved_only_if [OF assms(1)] assms(2) by blast
  with applyFileChanges_safe(3) [OF assms(1) Inr] show ?thesis by simp
qed

lemma applyFileContent_saved_only_if:
  assumes "applyFileContent env config uri newContent d = (res, d', events)"
    and "Saved uri \<in> set events"
  shows "save_result env = Inr True"
  using assms
  by (auto simp: applyFileContent_def confirm_def backup_and_write_def backupFile_def
      edit_and_save_def split: sum.splits option.splits if_splits prod.splits)

lemma applyFileContent_write_fails:
  assumes "applyFileContent env config uri newContent d = (res, d', events)"
    and "save_result env \<noteq> Inr True"
  shows "d' uri = d uri"
proof (cases "openTextDocument env d uri")
  case (Inl err)
  with assms(1) show ?thesis by (simp add: applyFileContent_def)
next
  case (Inr current)
  have "Saved uri \<notin> set events"
    using applyFileContent_saved_only_if [OF assms(1)] assms(2) by blast
  with applyFileContent_safe(3) [OF assms(1) Inr] show ?thesis by simp
qed

text \<open>When nothing fails and the change is confirmed (or applied automatically), it is applied.\<close>

definition nothing_fails :: "gate_env \<Rightarrow> bool" where
  "nothing_fails env =
     (open_fails env = None \<and> temp_write_fails env = None \<and> diff_fails env = None
      \<and> copy_fails env = None \<and> edit_applied env \<and> save_result env = Inr True)"

lemma applyFileChanges_applies:
  assumes "d uri = Some current" "current \<noteq> newContent" "autoApply \<or> user_answer env = Apply"
    and "nothing_fails env" "d (backup_path_ext uri (now_backup env)) = None"
  shows "\<exists>d' events. applyFileChanges env autoApply uri newContent d = (True, d', events)
           \<and> d' uri = Some newContent
           \<and> d' (backup_path_ext uri (now_backup env)) = Some current
           \<and> backups events = [(uri, backup_path_ext uri (now_backup env))]"
  using assms temp_path_not_target [of env uri] backup_path_ext_not_target [of uri "now_backup env"]
  by (auto simp: applyFileChanges_def openTextDocument_def confirm_def backup_and_write_ext_def
      backupFile_ext_def fs_copy_def edit_and_save_def nothing_fails_def)

lemma applyFileContent_applies:
  assumes "d uri = Some current" "current \<noteq> newContent" "autoApplyChanges config \<or> user_answer env = Apply"
    and "nothing_fails env" "d (backup_path uri (now_backup env)) = None"
  shows "\<exists>d' events. applyFileContent env config uri newContent d = (Inr True, d', events)
           \<and> d' uri = Some newContent
           \<and> d' (backup_path uri (now_backup env)) = Some current
           \<and> backups events = [(uri, backup_path uri (now_backup env))]"
  using assms temp_path_not_target [of env uri] backup_path_not_target [of uri "now_backup env"]
  by (auto simp: applyFileContent_def openTextDocument_def confirm_def backup_and_write_def
      backupFile_def fs_copy_def edit_and_save_def nothing_fails_def)

text \<open>
  Claim C2, for both revisions. (1) When the document already has the proposed content,
  the run returns \<^verbatim>\<open>false\<close>, leaves the disk as it is and has no effect at all, so
  no backup. (2) In every run on a document with other content: at most one backup is
  made; if the target is written, the effects end with the backup of the target to its
  timestamped path, the edit and the save, in this order, with no other backup, and the
  backup holds the original content; if the target is not written, it is on disk what
  it was; a run that reports success made exactly that one backup. (3) When the change
  is confirmed or applied automatically and nothing fails, the run reports success, the
  target holds the new content and the backup the original. (4) When the save fails,
  the target is on disk what it was before the run.
\<close>

theorem C2_mutation_gate:
  "(openTextDocument env d uri = Inr newContent \<longrightarrow>
      applyFileChanges env autoApply uri newContent d = (False, d, [])
      \<and> applyFileContent env config uri newContent d = (Inr False, d, []))
   \<and> (\<forall>res d' events current.
        applyFileChanges env autoApply uri newContent d = (res, d', events)
        \<and> openTextDocument env d uri = Inr current \<longrightarrow>
          length (backups events) \<le> 1
          \<and> (Saved uri \<in> set events \<longrightarrow>
                (\<exists>pre. events = pre @ [BackedUp uri (backup_path_ext uri (now_backup env)), Edited, Saved uri]
                       \<and> backups pre = [])
                \<and> d' (backup_path_ext uri (now_backup env)) = Some current)
          \<and> (Saved uri \<notin> set events \<longrightarrow> d' uri = d uri)
          \<and> (res \<longrightarrow> backups events = [(uri, backup_path_ext uri (now_backup env))]))
   \<and> (\<forall>res d' events current.
        applyFileContent env config uri newContent d = (res, d', events)
        \<and> openTextDocument env d uri = Inr current \<longrightarrow>
          length (backups events) \<le> 1
          \<and> (Saved uri \<in> set events \<longrightarrow>
                (\<exists>pre. events = pre @ [BackedUp uri (backup_path uri (now_backup env)), Edited, Saved uri]
                       \<and> backups pre = [])
                \<and> d' (backup_path uri (now_backup env)) = Some current)
          \<and> (Saved uri \<notin> set events \<longrightarrow> d' uri = d uri)
          \<and> (res = Inr True \<longrightarrow> backups events = [(uri, backup_path uri (now_backup env))]))
   \<and> (\<forall>current. d uri = Some current \<and> current \<noteq> newContent
        \<and> (autoApply \<or> user_answer env = Apply) \<and> nothing_fails env
        \<and> d (backup_path_ext uri (now_backup env)) = None \<longrightarrow>
          (\<exists>d' events. applyFileChanges env autoApply uri newContent d = (True, d', events)
             \<and> d' uri = Some newContent
             \<and> d' (backup_path_ext uri (now_backup env)) = Some current
             \<and> backups events = [(uri, backup_path_ext uri (now_backup env))]))
   \<and> (\<forall>current. d uri = Some current \<and> current \<noteq> newContent
        \<and> (autoApplyChanges config \<or> user_answer env = Apply) \<and> nothing_fails env
        \<and> d (backup_path uri (now_backup env)) = None \<longrightarrow>
          (\<exists>d' events. applyFileContent env config uri newContent d = (Inr True, d', events)
             \<and> d' uri = Some newContent
             \<and> d' (backup_path uri (now_backup env)) = Some current
             \<and> backups events = [(uri, backup_path uri (now_backup env))]))
   \<and> (\<forall>res d' events. applyFileChanges env autoApply uri newContent d = (res, d', events)
        \<and> save_result env \<noteq> Inr True \<longrightarrow> d' uri = d uri)
   \<and> (\<forall>res d' events. applyFileContent env config uri newContent d = (res, d', events)
        \<and> save_result env \<noteq> Inr True \<longrightarrow> d' uri = d uri)"
proof -
  have same: "openTextDocument env d uri = Inr newContent \<longrightarrow>
      applyFileChanges env autoApply uri newContent d = (False, d, [])
      \<and> applyFileContent env config uri newContent d = (Inr False, d, [])"
    by (simp add: applyFileChanges_def applyFileContent_def)
  have safe_ext: "\<forall>res d' events current.
        applyFileChanges env autoApply uri newContent d = (res, d', events)
        \<and> openTextDocument env d uri = Inr current \<longrightarrow>
          length (backups events) \<le> 1
          \<and> (Saved uri \<in> set events \<longrightarrow>
                (\<exists>pre. events = pre @ [BackedUp uri (backup_path_ext uri (now_backup env)), Edited, Saved uri]
                       \<and> backups pre = [])
                \<and> d' (backup_path_ext uri (now_backup env)) = Some current)
          \<and> (Saved uri \<notin> set events \<longrightarrow> d' uri = d uri)
          \<and> (res \<longrightarrow> backups events = [(uri, backup_path_ext uri (now_backup env))])"
    using applyFileChanges_safe [of env autoApply uri newContent d] by blast
  have safe: "\<forall>res d' events current.
        applyFileContent env config uri newContent d = (res, d', events)
        \<and> openTextDocument env d uri = Inr current \<longrightarrow>
          length (backups events) \<le> 1
          \<and> (Saved uri \<in> set events \<longrightarrow>
                (\<exists>pre. events = pre @ [BackedUp uri (backup_path uri (now_backup env)), Edited, Saved uri]
                       \<and> backups pre = [])
                \<and> d' (backup_path uri (now_backup env)) = Some current)
          \<and> (Saved uri \<notin> set events \<longrightarrow> d' uri = d uri)
          \<and> (res = Inr True \<longrightarrow> backups events = [(uri, backup_path uri (now_backup env))])"
    using applyFileContent_safe [of env config uri newContent d] by blast
  have live_ext: "\<forall>current. d uri = Some current \<and> current \<noteq> newContent
        \<and> (autoApply \<or> user_answer env = Apply) \<and> nothing_fails env
        \<and> d (backup_path_ext uri (now_backup env)) = None \<longrightarrow>
          (\<exists>d' events. applyFileChanges env autoApply uri newContent d = (True, d', events)
             \<and> d' uri = Some newContent
             \<and> d' (backup_path_ext uri (now_backup env)) = Some current
             \<and> backups events = [(uri, backup_path_ext uri (now_backup env))])"
    using applyFileChanges_applies [of d uri _ newContent autoApply env] by blast
  have live: "\<forall>current. d uri = Some current \<and> current \<noteq> newContent
        \<and> (autoApplyChanges config \<or> user_answer env = Apply) \<and> nothing_fails env
        \<and> d (backup_path uri (now_backup env)) = None \<longrightarrow>
          (\<exists>d' events. applyFileContent env config uri newContent d = (Inr True, d', events)
             \<and> d' uri = Some newContent
             \<and> d' (backup_path uri (now_backup env)) = Some current
             \<and> backups events = [(uri, backup_path uri (now_backup env))])"
    using applyFileContent_applies [of d uri _ newContent config env] by blast
  have fail_ext: "\<forall>res d' events. applyFileChanges env autoApply uri newContent d = (res, d', events)
        \<and> save_result env \<noteq> Inr True \<longrightarrow> d' uri = d uri"
    using applyFileChanges_write_fails [of env autoApply uri newContent d] by blast
  have fail: "\<forall>res d' events. applyFileContent env config uri newContent d = (res, d', events)
        \<and> save_result env \<noteq> Inr True \<longrightarrow> d' uri = d uri"
    using applyFileContent_write_fails [of env config uri newContent d] by blast
  from same safe_ext safe live_ext live fail_ext fail show ?thesis by (intro conjI)
qed

text \<open>
  The witness: one file with the content \<open>old\<close>; a run that proposes the same content,
  a confirmed run in which nothing fails, and a confirmed run whose save throws.
\<close>

definition one_file :: disk where
  "one_file = [''src/a.ts'' \<mapsto> ''old'']"

definition env_ok :: gate_env where
  "env_ok = \<lparr> now_temp = 1700000000000, now_backup = 1700000000001, tmpdir = ''/tmp'',
     open_fails = None, temp_write_fails = None, diff_fails = None, user_answer = Apply,
     copy_fails = None, edit_applied = True, save_result = Inr True \<rparr>"

definition env_save_fails :: gate_env where
  "env_save_fails = env_ok \<lparr> save_result := Inl (Error ''EACCES'') \<rparr>"

lemma show_nat_backup_time: "show_nat 1700000000001 = ''1700000000001''"
  by (simp add: show_nat.simps digit_char_def)

theorem C2_mutation_gate_witness:
  "applyFileChanges env_ok False ''src/a.ts'' ''old'' one_file = (False, one_file, [])
   \<and> applyFileContent env_ok default_config ''src/a.ts'' ''old'' one_file = (Inr False, one_file, [])
   \<and> (\<exists>d' events. applyFileChanges env_ok False ''src/a.ts'' ''new'' one_file = (True, d', events)
         \<and> d' ''src/a.ts'' = Some ''new''
         \<and> d' ''src/a.ts.bak.1700000000001'' = Some ''old''
         \<and> backups events = [(''src/a.ts'', ''src/a.ts.bak.1700000000001'')]
         \<and> length (backups events) \<le> 1)
   \<and> (\<exists>d' events. applyFileContent env_ok default_config ''src/a.ts'' ''new'' one_file = (Inr True, d', events)
         \<and> d' ''src/a.ts'' = Some ''new''
         \<and> d' ''src/a.ts.bak1700000000001'' = Some ''old''
         \<and> backups events = [(''src/a.ts'', ''src/a.ts.bak1700000000001'')]
         \<and> length (backups events) \<le> 1)
   \<and> fst (snd (applyFileChanges env_save_fails False ''src/a.ts'' ''new'' one_file)) ''src/a.ts'' = Some ''old''
   \<and> fst (snd (applyFileContent env_save_fails default_config ''src/a.ts'' ''new'' one_file)) ''src/a.ts'' = Some ''old''"
proof -
  have opened: "openTextDocument env_ok one_file ''src/a.ts'' = Inr ''old''"
    by (simp add: openTextDocument_def env_ok_def one_file_def)
  have orig: "one_file ''src/a.ts'' = Some ''old''"
    by (simp add: one_file_def)
  have b1: "backup_path_ext ''src/a.ts'' (now_backup env_ok) = ''src/a.ts.bak.1700000000001''"
    and b2: "backup_path ''src/a.ts'' (now_backup env_ok) = ''src/a.ts.bak1700000000001''"
    by (simp_all add: backup_path_ext_def backup_path_def env_ok_def show_nat_backup_time)
  have free1: "one_file (backup_path_ext ''src/a.ts'' (now_backup env_ok)) = None"
    and free2: "one_file (backup_path ''src/a.ts'' (now_backup env_ok)) = None"
    unfolding b1 b2 by (simp_all add: one_file_def)
  have ok: "nothing_fails env_ok" and yes: "user_answer env_ok = Apply"
    by (simp_all add: nothing_fails_def env_ok_def)
  have bad: "save_result env_save_fails \<noteq> Inr True"
    by (simp add: env_save_fails_def env_ok_def)
  note same = C2_mutation_gate [of env_ok one_file "''src/a.ts''" "''old''" False default_config]
  note change = C2_mutation_gate [of env_ok one_file "''src/a.ts''" "''new''" False default_config]
  note broken = C2_mutation_gate [of env_save_fails one_file "''src/a.ts''" "''new''" False default_config]
  note same1 = same [THEN conjunct1, rule_format]
  note safe_ext = change [THEN conjunct2, THEN conjunct1, rule_format]
  note safe = change [THEN conjunct2, THEN conjunct2, THEN conjunct1, rule_format]
  note live_ext = change [THEN conjunct2, THEN conjunct2, THEN conjunct2, THEN conjunct1, rule_format]
  note live = change [THEN conjunct2, THEN conjunct2, THEN conjunct2, THEN conjunct2, THEN conjunct1, rule_format]
  note fail_ext = broken [THEN conjunct2, THEN conjunct2, THEN conjunct2, THEN conjunct2, THEN conjunct2,
      THEN conjunct1, rule_format]
  note fail = broken [THEN conjunct2, THEN conjunct2, THEN conjunct2, THEN conjunct2, THEN conjunct2,
      THEN conjunct2, rule_format]
  have p1: "applyFileChanges env_ok False ''src/a.ts'' ''old'' one_file = (False, one_file, [])"
    and p2: "applyFileContent env_ok default_config ''src/a.ts'' ''old'' one_file = (Inr False, one_file, [])"
    using same1 [OF opened] by simp_all
  have differs: "''old'' \<noteq> ''new''" by simp
  have pre1: "one_file ''src/a.ts'' = Some ''old'' \<and> ''old'' \<noteq> ''new''
      \<and> (False \<or> user_answer env_ok = Apply) \<and> nothing_fails env_ok
      \<and> one_file (backup_path_ext ''src/a.ts'' (now_backup env_ok)) = None"
    using orig differs yes ok free1 by simp
  from live_ext [OF pre1] obtain d' events where
    r1: "applyFileChanges env_ok False ''src/a.ts'' ''new'' one_file = (True, d', events)"
      "d' ''src/a.ts'' = Some ''new''"
      "d' (backup_path_ext ''src/a.ts'' (now_backup env_ok)) = Some ''old''"
      "backups events = [(''src/a.ts'', backup_path_ext ''src/a.ts'' (now_backup env_ok))]"
    by (elim exE conjE)
  have "length (backups events) \<le> 1"
    using safe_ext [OF conjI [OF r1(1) opened]] by simp
  with r1 have p3: "\<exists>d' events. applyFileChanges env_ok False ''src/a.ts'' ''new'' one_file = (True, d', events)
         \<and> d' ''src/a.ts'' = Some ''new''
         \<and> d' ''src/a.ts.bak.1700000000001'' = Some ''old''
         \<and> backups events = [(''src/a.ts'', ''src/a.ts.bak.1700000000001'')]
         \<and> length (backups events) \<le> 1"
    unfolding b1 by (intro exI conjI)
  have pre2: "one_file ''src/a.ts'' = Some ''old'' \<and> ''old'' \<noteq> ''new''
      \<and> (autoApplyChanges default_config \<or> user_answer env_ok = Apply) \<and> nothing_fails env_ok
      \<and> one_file (backup_path ''src/a.ts'' (now_backup env_ok)) = None"
    using orig differs yes ok free2 by simp
  from live [OF pre2] obtain e' events' where
    r2: "applyFileContent env_ok default_config ''src/a.ts'' ''new'' one_file = (Inr True, e', events')"
      "e' ''src/a.ts'' = Some ''new''"
      "e' (backup_path ''src/a.ts'' (now_backup env_ok)) = Some ''old''"
      "backups events' = [(''src/a.ts'', backup_path ''src/a.ts'' (now_backup env_ok))]"
    by (elim exE conjE)
  have "length (backups events') \<le> 1"
    using safe [OF conjI [OF r2(1) opened]] by simp
  with r2 have p4: "\<exists>d' events. applyFileContent env_ok default_config ''src/a.ts'' ''new'' one_file = (Inr True, d', events)
         \<and> d' ''src/a.ts'' = Some ''new''
         \<and> d' ''src/a.ts.bak1700000000001'' = Some ''old''
         \<and> backups events = [(''src/a.ts'', ''src/a.ts.bak1700000000001'')]
         \<and> length (backups events) \<le> 1"
    unfolding b2 by (intro exI conjI)
  have run5: "applyFileChanges env_save_fails False ''src/a.ts'' ''new'' one_file =
      (fst (applyFileChanges env_save_fails False ''src/a.ts'' ''new'' one_file),
       fst (snd (applyFileChanges env_save_fails False ''src/a.ts'' ''new'' one_file)),
       snd (snd (applyFileChanges env_save_fails False ''src/a.ts'' ''new'' one_file)))"
    by simp
  have p5: "fst (snd (applyFileChanges env_save_fails False ''src/a.ts'' ''new'' one_file)) ''src/a.ts''
      = Some ''old''"
    using fail_ext [OF conjI [OF run5 bad]] orig by simp
  have run6: "applyFileContent env_save_fails default_config ''src/a.ts'' ''new'' one_file =
      (fst (applyFileContent env_save_fails default_config ''src/a.ts'' ''new'' one_file),
       fst (snd (applyFileContent env_save_fails default_config ''src/a.ts'' ''new'' one_file)),
       snd (snd (applyFileContent env_save_fails default_config ''src/a.ts'' ''new'' one_file)))"
    by simp
  have p6: "fst (snd (applyFileContent env_save_fails default_config ''src/a.ts'' ''new'' one_file)) ''src/a.ts''
      = Some ''old''"
    using fail [OF conjI [OF run6 bad]] orig by simp
  from p1 p2 p3 p4 p5 p6 show ?thesis by (intro conjI)
qed

subsection \<open>Backups and the Inclusion Filter\<close>

text \<open>
  The default exclude list ends with the pattern \<^verbatim>\<open>**/*.bak.*\<close>. The backup path of
  \<^verbatim>\<open>extension.ts\<close> is \<^verbatim>\<open><path>.bak.<timestamp>\<close>; the one of part_004 is
  \<^verbatim>\<open><path>.bak<timestamp>\<close>, without the second dot.
\<close>

lemma glob_seg_star_all: "glob_seg ''*'' s"
  by (induction s) auto

lemma glob_seg_star_skip: "glob_seg ps y \<Longrightarrow> glob_seg (CHR ''*'' # ps) (x @ y)"
proof (induction x)
  case Nil
  then show ?case by (cases y) auto
next
  case (Cons c x)
  then show ?case by simp
qed

lemma glob_seg_bak: "glob_seg ''*.bak.*'' (name @ ''.bak.'' @ ds)"
proof -
  have "glob_seg ''.bak.*'' (''.bak.'' @ ds)"
    using glob_seg_star_all [of ds] by simp
  then show ?thesis by (rule glob_seg_star_skip)
qed

lemma seg_match_bak:
  "name \<noteq> [] \<Longrightarrow> \<not> hidden name \<Longrightarrow> seg_match ''*.bak.*'' (name @ ''.bak.'' @ ds)"
  using glob_seg_bak [of name ds] by (cases name) (auto simp: seg_match_def)

lemma match_segs_globstar_last:
  "list_all (\<lambda>name. \<not> hidden name) dirs \<Longrightarrow> seg_match q name \<Longrightarrow> q \<noteq> ''**'' \<Longrightarrow>
     match_segs [''**'', q] (dirs @ [name])"
proof (induction dirs)
  case Nil
  then show ?case by simp
next
  case (Cons dir dirs)
  then show ?case by simp
qed

lemma split_on_snoc:
  "sep \<notin> set t \<Longrightarrow> split_on sep (s @ t) = butlast (split_on sep s) @ [last (split_on sep s) @ t]"
proof (induction s)
  case Nil
  then show ?case by (simp add: split_on_no_sep)
next
  case (Cons c s)
  show ?case
  proof (cases "split_on sep s")
    case Nil
    then show ?thesis using split_on_not_empty [of sep s] by simp
  next
    case (Cons l ls)
    with Cons.IH [OF Cons.prems] show ?thesis
      by (cases ls) (auto split: list.splits)
  qed
qed

text \<open>
  In \<^verbatim>\<open>extension.ts\<close> the backup of a path whose segments are not hidden (and whose
  file name is not empty) matches the exclude pattern, so the filter rejects it
  whatever the include list is.
\<close>

lemma backup_ext_matches_exclude:
  assumes "list_all (\<lambda>name. \<not> hidden name) (split_on CHR ''/'' p)"
    and "last (split_on CHR ''/'' p) \<noteq> []"
  shows "minimatch (backup_path_ext p t) ''**/*.bak.*'' = Inr True"
proof -
  let ?segs = "split_on CHR ''/'' p"
  have "CHR ''/'' \<notin> set (''.bak.'' @ show_nat t)"
    using show_nat_no_slash [of t] by simp
  then have sp: "split_on CHR ''/'' (backup_path_ext p t) =
      butlast ?segs @ [last ?segs @ ''.bak.'' @ show_nat t]"
    unfolding backup_path_ext_def by (rule split_on_snoc)
  have ne: "?segs \<noteq> []" by (rule split_on_not_empty)
  have dirs: "list_all (\<lambda>name. \<not> hidden name) (butlast ?segs)"
    using assms(1) by (auto simp: list_all_iff dest: in_set_butlastD)
  have "\<not> hidden (last ?segs)"
    using assms(1) ne by (auto simp: list_all_iff)
  then have "seg_match ''*.bak.*'' (last ?segs @ ''.bak.'' @ show_nat t)"
    using assms(2) by (intro seg_match_bak)
  moreover have "''*.bak.*'' \<noteq> ''**''" by simp
  ultimately
  have "match_segs [''**'', ''*.bak.*''] (split_on CHR ''/'' (backup_path_ext p t))"
    using sp match_segs_globstar_last [OF dirs] by simp
  moreover have "braceExpand ''**/*.bak.*'' = [''**/*.bak.*'']"
    by (simp add: braceExpand.simps)
  moreover have "split_on CHR ''/'' ''**/*.bak.*'' = [''**'', ''*.bak.*'']"
    by simp
  ultimately show ?thesis by (simp add: minimatch_def)
qed

lemma backup_ext_rejected:
  assumes "list_all (\<lambda>name. \<not> hidden name) (split_on CHR ''/'' p)"
    and "last (split_on CHR ''/'' p) \<noteq> []"
    and "''**/*.bak.*'' \<in> set excl"
    and "\<forall>q \<in> set incl \<union> set excl. minimatch (backup_path_ext p t) q = Inr (matches q)"
  shows "\<not> shouldIncludeFile_ext minimatch (backup_path_ext p t) incl excl"
proof -
  from assms(3,4) backup_ext_matches_exclude [OF assms(1,2), of t]
  have "matches ''**/*.bak.*''" by auto
  with assms(3) shouldIncludeFile_ext_iff [of incl excl minimatch "backup_path_ext p t" matches, OF assms(4)]
  show ?thesis by blast
qed

text \<open>
  Claim C10 at a concrete input. The backup that part_004 makes of \<^verbatim>\<open>src/a.ts\<close> is
  matched by none of the default exclude patterns; with the include list
  \<^verbatim>\<open>["**/*"]\<close> (the default of the earlier revisions) the filter accepts it. The
  backup that \<^verbatim>\<open>extension.ts\<close> makes of the same file is matched by
  \<^verbatim>\<open>**/*.bak.*\<close>.
\<close>

theorem C10_part_004_backup_not_excluded:
  "backup_path ''src/a.ts'' 1700000000001 = ''src/a.ts.bak1700000000001''
   \<and> array_some (minimatch (backup_path ''src/a.ts'' 1700000000001)) (excludePatterns default_config)
       = Inr False
   \<and> shouldIncludeFile minimatch (backup_path ''src/a.ts'' 1700000000001)
        (default_config \<lparr> includePatterns := [''**/*''] \<rparr>) = Inr True
   \<and> minimatch (backup_path_ext ''src/a.ts'' 1700000000001) ''**/*.bak.*'' = Inr True"
proof -
  have b: "backup_path ''src/a.ts'' 1700000000001 = ''src/a.ts.bak1700000000001''"
    by (simp add: backup_path_def show_nat_backup_time)
  have be: "backup_path_ext ''src/a.ts'' 1700000000001 = ''src/a.ts.bak.1700000000001''"
    by (simp add: backup_path_ext_def show_nat_backup_time)
  have ex: "array_some (minimatch ''src/a.ts.bak1700000000001'') (excludePatterns default_config) = Inr False"
    by (simp add: default_config_def minimatch_def braceExpand.simps seg_match_def)
  have inc: "array_some (minimatch ''src/a.ts.bak1700000000001'') [''**/*''] = Inr True"
    by (simp add: minimatch_def braceExpand.simps seg_match_def)
  have "shouldIncludeFile minimatch ''src/a.ts.bak1700000000001''
        (default_config \<lparr> includePatterns := [''**/*''] \<rparr>) = Inr True"
    using ex inc by (simp add: shouldIncludeFile_def)
  moreover have "minimatch ''src/a.ts.bak.1700000000001'' ''**/*.bak.*'' = Inr True"
    by (simp add: minimatch_def braceExpand.simps seg_match_def)
  ultimately show ?thesis using b be ex by simp
qed

subsection \<open>Batch Scheduler: the enumeration \<^verbatim>\<open>findFiles\<close>\<close>

text \<open>
  The workspace is a finite tree. \<^verbatim>\<open>readDirectory\<close> answers, for a readable directory,
  with the names and types of its entries; it throws for a directory that cannot be
  read. Symbolic links and unknown entries have a type of their own and are skipped by
  both revisions. A generator is modelled by the list of the values it yields.
\<close>

datatype node = File | Directory "(string \<times> node) list" | Unreadable | Other

fun is_directory :: "node \<Rightarrow> bool" where
  "is_directory (Directory es) = True"
| "is_directory Unreadable = True"
| "is_directory t = False"

text \<open>
  \<^verbatim>\<open>extension.ts\<close>, lines 287-320. The filter of this revision never throws, so it is a
  predicate \<open>inc\<close>. \<open>entries_ext\<close> is the inner loop over the entries of one
  directory, from the counter value \<open>n\<close> on: it returns what it yields, the counter,
  and whether it left through \<^verbatim>\<open>return\<close>. \<open>dir_ext\<close> is the recursive call
  \<^verbatim>\<open>findFiles([{ uri }], config)\<close> on one folder: it starts a counter of its own at
  0, and its \<^verbatim>\<open>return\<close> ends only itself.
\<close>

function dir_ext :: "(string \<Rightarrow> bool) \<Rightarrow> nat \<Rightarrow> string \<Rightarrow> node \<Rightarrow> string list"
  and entries_ext :: "(string \<Rightarrow> bool) \<Rightarrow> nat \<Rightarrow> string \<Rightarrow> (string \<times> node) list \<Rightarrow> nat
      \<Rightarrow> string list \<times> nat \<times> bool"
where
  "dir_ext inc maxFiles' path (Directory es) = fst (entries_ext inc maxFiles' path es 0)"
| "dir_ext inc maxFiles' path File = []"
| "dir_ext inc maxFiles' path Unreadable = []"
| "dir_ext inc maxFiles' path Other = []"
| "entries_ext inc maxFiles' dir [] n = ([], n, False)"
| "entries_ext inc maxFiles' dir ((name, t) # es) n =
     (if n \<ge> maxFiles' then ([], n, True)
      else if t = File \<and> inc (join dir name) then
        (case entries_ext inc maxFiles' dir es (n + 1) of
           (ys, n', returned) \<Rightarrow> (join dir name # ys, n', returned))
      else if is_directory t then
        (case entries_ext inc maxFiles' dir es n of
           (ys, n', returned) \<Rightarrow> (dir_ext inc maxFiles' (join dir name) t @ ys, n', returned))
      else entries_ext inc maxFiles' dir es n)"
  by pat_completeness auto
termination
  by (relation "measure (\<lambda>x. case x of
         Inl (inc, m, path, t) \<Rightarrow> 2 * size t + 1
       | Inr (inc, m, dir, es, n) \<Rightarrow> 2 * size (Directory es))") auto

text \<open>The outer loop over the workspace folders, with the counter shared between them.\<close>

fun folders_ext :: "(string \<Rightarrow> bool) \<Rightarrow> nat \<Rightarrow> (string \<times> node) list \<Rightarrow> nat \<Rightarrow> string list" where
  "folders_ext inc maxFiles' [] n = []"
| "folders_ext inc maxFiles' ((path, Directory es) # rest) n =
     (case entries_ext inc maxFiles' path es n of
        (ys, n', returned) \<Rightarrow> if returned then ys else ys @ folders_ext inc maxFiles' rest n')"
| "folders_ext inc maxFiles' ((path, t) # rest) n = folders_ext inc maxFiles' rest n"

definition findFiles_ext :: "(string \<Rightarrow> bool) \<Rightarrow> nat \<Rightarrow> (string \<times> node) list \<Rightarrow> string list" where
  "findFiles_ext inc maxFiles' workspaceFolders = folders_ext inc maxFiles' workspaceFolders 0"

text \<open>The recursive call is the function itself on one folder.\<close>

lemma findFiles_ext_one_folder: "findFiles_ext inc m [(path, t)] = dir_ext inc m path t"
  by (cases t) (auto simp: findFiles_ext_def split: prod.splits)

text \<open>
  part_004, lines 487-512. The filter of this revision may throw, so it answers in a sum;
  the \<^verbatim>\<open>try\<close> around the loop over the entries catches the exception and the walk goes
  on with the next directory of the stack. The stack is a list with its top at the head.
  \<open>entries_loop\<close> returns what it yields, the counter, the stack and how it ended.
\<close>

datatype loop_end = Done | Returned | Threw

fun entries_loop ::
  "(string \<Rightarrow> js_error + bool) \<Rightarrow> nat \<Rightarrow> string \<Rightarrow> (string \<times> node) list \<Rightarrow> nat \<Rightarrow> (string \<times> node) list
     \<Rightarrow> string list \<times> nat \<times> (string \<times> node) list \<times> loop_end" where
  "entries_loop inc maxFiles' dir [] fileCount stack = ([], fileCount, stack, Done)"
| "entries_loop inc maxFiles' dir ((name, t) # es) fileCount stack =
     (if t = File then
        (case inc (join dir name) of
           Inl err \<Rightarrow> ([], fileCount, stack, Threw)
         | Inr included \<Rightarrow>
             if included then
               (if fileCount + 1 > maxFiles' then ([], fileCount + 1, stack, Returned)
                else
                  (case entries_loop inc maxFiles' dir es (fileCount + 1) stack of
                     (ys, n', stack', how) \<Rightarrow> (join dir name # ys, n', stack', how)))
             else entries_loop inc maxFiles' dir es fileCount stack)
      else if is_directory t then
        entries_loop inc maxFiles' dir es fileCount ((join dir name, t) # stack)
      else entries_loop inc maxFiles' dir es fileCount stack)"

definition stack_size :: "(string \<times> node) list \<Rightarrow> nat" where
  "stack_size stack = size (Directory stack)"

lemma entries_loop_stack:
  "entries_loop inc m dir es n stack = (ys, n', stack', how) \<Longrightarrow>
     stack_size stack' + 1 \<le> stack_size stack + size (Directory es)"
proof (induction es arbitrary: n stack ys)
  case Nil
  then show ?case by (simp add: stack_size_def)
next
  case (Cons e es)
  obtain name t where e: "e = (name, t)" by (cases e)
  show ?case
  proof (cases "t = File")
    case True
    show ?thesis
    proof (cases "inc (join dir name)")
      case (Inl err)
      with Cons.prems e True show ?thesis by (simp add: stack_size_def)
    next
      case (Inr included)
      show ?thesis
      proof (cases "included \<and> \<not> n + 1 > m")
        case True
        with Cons.prems e \<open>t = File\<close> Inr obtain zs where
          "entries_loop inc m dir es (n + 1) stack = (zs, n', stack', how)"
          by (auto split: prod.splits)
        from Cons.IH [OF this] show ?thesis by (simp add: stack_size_def)
      next
        case False
        show ?thesis
        proof (cases included)
          case True
          with False Cons.prems e \<open>t = File\<close> Inr show ?thesis
            by (simp add: stack_size_def)
        next
          case no: False
          with Cons.prems e \<open>t = File\<close> Inr
          have "entries_loop inc m dir es n stack = (ys, n', stack', how)" by simp
          from Cons.IH [OF this] show ?thesis by (simp add: stack_size_def)
        qed
      qed
    qed
  next
    case False
    show ?thesis
    proof (cases "is_directory t")
      case True
      with Cons.prems e False
      have "entries_loop inc m dir es n ((join dir name, t) # stack) = (ys, n', stack', how)" by simp
      from Cons.IH [OF this] show ?thesis using e by (simp add: stack_size_def)
    next
      case no: False
      with Cons.prems e False
      have "entries_loop inc m dir es n stack = (ys, n', stack', how)" by simp
      from Cons.IH [OF this] show ?thesis by (simp add: stack_size_def)
    qed
  qed
qed

text \<open>The \<^verbatim>\<open>while\<close> loop over the stack: what it yields, the counter, and whether it returned.\<close>

function walk ::
  "(string \<Rightarrow> js_error + bool) \<Rightarrow> nat \<Rightarrow> (string \<times> node) list \<Rightarrow> nat \<Rightarrow> string list \<times> nat \<times> bool" where
  "walk inc maxFiles' [] fileCount = ([], fileCount, False)"
| "walk inc maxFiles' ((dir, t) # stack) fileCount =
     (if fileCount < maxFiles' then
        (case t of
           Directory es \<Rightarrow>
             (case entries_loop inc maxFiles' dir es fileCount stack of
                (ys, n', stack', how) \<Rightarrow>
                  if how = Returned then (ys, n', True)
                  else
                    (case walk inc maxFiles' stack' n' of
                       (zs, n'', returned) \<Rightarrow> (ys @ zs, n'', returned)))
         | _ \<Rightarrow> walk inc maxFiles' stack fileCount)
      else ([], fileCount, False))"
  by pat_completeness auto
termination
proof (relation "measure (\<lambda>(inc, m, stack, n). stack_size stack)")
  show "wf (measure (\<lambda>(inc, m, stack, n). stack_size stack))" by simp
next
  fix inc :: "string \<Rightarrow> js_error + bool" and maxFiles' dir t stack fileCount es ys y n' ya stack' how
  assume "fileCount < maxFiles'" and t: "t = Directory es"
    and "(ys, y) = entries_loop inc maxFiles' dir es fileCount stack" "(n', ya) = y"
    "(stack', how) = ya" "how \<noteq> Returned"
  then have "entries_loop inc maxFiles' dir es fileCount stack = (ys, n', stack', how)" by simp
  from entries_loop_stack [OF this] t
  show "((inc, maxFiles', stack', n'), inc, maxFiles', (dir, t) # stack, fileCount)
      \<in> measure (\<lambda>(inc, m, stack, n). stack_size stack)"
    by (simp add: stack_size_def)
qed (simp_all add: stack_size_def)

fun folders_loop ::
  "(string \<Rightarrow> js_error + bool) \<Rightarrow> nat \<Rightarrow> (string \<times> node) list \<Rightarrow> nat \<Rightarrow> string list" where
  "folders_loop inc maxFiles' [] fileCount = []"
| "folders_loop inc maxFiles' (folder # rest) fileCount =
     (case walk inc maxFiles' [folder] fileCount of
        (ys, n', returned) \<Rightarrow> if returned then ys else ys @ folders_loop inc maxFiles' rest n')"

definition findFiles :: "(string \<Rightarrow> js_error + bool) \<Rightarrow> Config \<Rightarrow> (string \<times> node) list \<Rightarrow> string list" where
  "findFiles inc config folders = folders_loop inc (maxFiles config) folders 0"

text \<open>In part_004 the counter is one for the whole walk, and no more than the limit is yielded.\<close>

lemma entries_loop_count:
  "entries_loop inc m dir es n stack = (ys, n', stack', how) \<Longrightarrow> n \<le> m \<Longrightarrow>
     n + length ys \<le> m \<and> (how \<noteq> Returned \<longrightarrow> n' = n + length ys)"
proof (induction es arbitrary: n stack ys)
  case Nil
  then show ?case by simp
next
  case (Cons e es)
  obtain name t where e: "e = (name, t)" by (cases e)
  show ?case
  proof (cases "t = File")
    case True
    show ?thesis
    proof (cases "inc (join dir name)")
      case (Inl err)
      with Cons.prems e True show ?thesis by simp
    next
      case (Inr included)
      show ?thesis
      proof (cases "included \<and> \<not> n + 1 > m")
        case True
        with Cons.prems e \<open>t = File\<close> Inr obtain zs where
          zs: "entries_loop inc m dir es (n + 1) stack = (zs, n', stack', how)" "ys = join dir name # zs"
          by (auto split: prod.splits)
        from True have "n + 1 \<le> m" by simp
        from Cons.IH [OF zs(1) this] zs(2) show ?thesis by simp
      next
        case False
        show ?thesis
        proof (cases included)
          case True
          with False Cons.prems e \<open>t = File\<close> Inr show ?thesis by auto
        next
          case no: False
          with Cons.prems e \<open>t = File\<close> Inr
          have "entries_loop inc m dir es n stack = (ys, n', stack', how)" by simp
          from Cons.IH [OF this Cons.prems(2)] show ?thesis .
        qed
      qed
    qed
  next
    case False
    show ?thesis
    proof (cases "is_directory t")
      case True
      with Cons.prems e False
      have "entries_loop inc m dir es n ((join dir name, t) # stack) = (ys, n', stack', how)" by simp
      from Cons.IH [OF this Cons.prems(2)] show ?thesis .
    next
      case no: False
      with Cons.prems e False
      have "entries_loop inc m dir es n stack = (ys, n', stack', how)" by simp
      from Cons.IH [OF this Cons.prems(2)] show ?thesis .
    qed
  qed
qed

lemma walk_count:
  "walk inc m stack n = (ys, n', returned) \<Longrightarrow> n \<le> m \<Longrightarrow>
     n + length ys \<le> m \<and> (\<not> returned \<longrightarrow> n' = n + length ys)"
proof (induction inc m stack n arbitrary: ys n' returned rule: walk.induct)
  case (1 inc m n)
  then show ?case by simp
next
  case (2 inc m dir t stack n)
  show ?case
  proof (cases "n < m")
    case False
    with "2.prems" show ?thesis by simp
  next
    case lt: True
    show ?thesis
    proof (cases t)
      case (Directory es)
      obtain as k st how where el: "entries_loop inc m dir es n stack = (as, k, st, how)"
        by (cases "entries_loop inc m dir es n stack") auto
      from entries_loop_count [OF el "2.prems"(2)]
      have c: "n + length as \<le> m" "how \<noteq> Returned \<longrightarrow> k = n + length as" by simp_all
      show ?thesis
      proof (cases "how = Returned")
        case True
        with "2.prems"(1) lt Directory el c show ?thesis by auto
      next
        case False
        obtain zs k' r where w: "walk inc m st k = (zs, k', r)"
          by (cases "walk inc m st k") auto
        from c False have k: "k = n + length as" "k \<le> m" by simp_all
        from "2.IH"(2) [OF lt Directory el [symmetric] refl refl False w k(2)]
        have "k + length zs \<le> m \<and> (\<not> r \<longrightarrow> k' = k + length zs)" .
        with "2.prems"(1) lt Directory el False w k show ?thesis by auto
      qed
    next
      case File
      with "2.prems" lt "2.IH"(1) [OF lt File] show ?thesis by simp
    next
      case Unreadable
      with "2.prems" lt "2.IH"(3) [OF lt Unreadable] show ?thesis by simp
    next
      case Other
      with "2.prems" lt "2.IH"(4) [OF lt Other] show ?thesis by simp
    qed
  qed
qed

lemma folders_loop_count: "n \<le> m \<Longrightarrow> n + length (folders_loop inc m folders n) \<le> m"
proof (induction folders arbitrary: n)
  case Nil
  then show ?case by simp
next
  case (Cons folder rest)
  obtain ys k r where w: "walk inc m [folder] n = (ys, k, r)"
    by (cases "walk inc m [folder] n") auto
  from walk_count [OF w Cons.prems] have c: "n + length ys \<le> m" "\<not> r \<longrightarrow> k = n + length ys"
    by simp_all
  show ?case
  proof (cases r)
    case True
    with w c show ?thesis by simp
  next
    case False
    with c have "k \<le> m" "k = n + length ys" by simp_all
    with Cons.IH [of k] w False show ?thesis by simp
  qed
qed

lemma findFiles_at_most_maxFiles: "length (findFiles inc config folders) \<le> maxFiles config"
  using folders_loop_count [of 0 "maxFiles config" inc folders] by (simp add: findFiles_def)

definition ten_files :: "(string \<times> node) list" where
  "ten_files = [(''a.ts'', File), (''b.ts'', File), (''c.ts'', File), (''d.ts'', File),
     (''e.ts'', File), (''f.ts'', File), (''g.ts'', File), (''h.ts'', File), (''i.ts'', File),
     (''j.ts'', File)]"

definition nested_workspace :: node where
  "nested_workspace = Directory [(''lib'', Directory ten_files), (''main.ts'', File)]"

definition default_filter :: "string \<Rightarrow> bool" where
  "default_filter p =
     shouldIncludeFile_ext minimatch p (includePatterns default_config) (excludePatterns default_config)"

text \<open>
  Claim C8 at a concrete input, for \<^verbatim>\<open>extension.ts\<close>. The workspace folder \<^verbatim>\<open>src\<close>
  holds the directory \<^verbatim>\<open>lib\<close> with ten TypeScript files, and after it the file
  \<^verbatim>\<open>main.ts\<close>; the limit is 10 and the filter is the one of the default settings.
  The recursive call for \<^verbatim>\<open>lib\<close> counts its ten files on a counter of its own, the
  counter of the caller is still 0 when it comes to \<^verbatim>\<open>main.ts\<close>, and eleven files are
  yielded. (part_004 keeps one counter for the whole walk:
  \<open>findFiles_at_most_maxFiles\<close>.)
\<close>

theorem C8_extension_ts_exceeds_maxFiles:
  "findFiles_ext default_filter 10 [(''src'', nested_workspace)] =
     [''src/lib/a.ts'', ''src/lib/b.ts'', ''src/lib/c.ts'', ''src/lib/d.ts'', ''src/lib/e.ts'',
      ''src/lib/f.ts'', ''src/lib/g.ts'', ''src/lib/h.ts'', ''src/lib/i.ts'', ''src/lib/j.ts'',
      ''src/main.ts'']
   \<and> length (findFiles_ext default_filter 10 [(''src'', nested_workspace)]) = 11"
proof -
  have "findFiles_ext default_filter 10 [(''src'', nested_workspace)] =
     [''src/lib/a.ts'', ''src/lib/b.ts'', ''src/lib/c.ts'', ''src/lib/d.ts'', ''src/lib/e.ts'',
      ''src/lib/f.ts'', ''src/lib/g.ts'', ''src/lib/h.ts'', ''src/lib/i.ts'', ''src/lib/j.ts'',
      ''src/main.ts'']"
    by (simp add: findFiles_ext_def nested_workspace_def ten_files_def join_def default_filter_def
        shouldIncludeFile_ext_def default_config_def minimatch_def braceExpand.simps seg_match_def)
  then show ?thesis by simp
qed

subsection \<open>Backend Adapters: \<^verbatim>\<open>getResponse\<close> (part_004, lines 91-109, 151-169, 210-227)\<close>

text \<open>
  The body of an HTTP reply is a JavaScript value as \<^verbatim>\<open>JSON.parse\<close> builds it (or
  \<^verbatim>\<open>undefined\<close>, or a string when the body is not JSON). Reading a property of
  \<^verbatim>\<open>undefined\<close> or \<^verbatim>\<open>null\<close> throws a \<^verbatim>\<open>TypeError\<close>; reading a property that
  an object does not have gives \<^verbatim>\<open>undefined\<close>; the optional chain \<^verbatim>\<open>?.\<close> gives
  \<^verbatim>\<open>undefined\<close> instead of throwing. The properties of an object are an association
  list. Only the property names that the adapters read matter, so arrays, strings,
  numbers and booleans have none of them. The HTTP call itself is its outcome: the body,
  or the error of the client with its status, code and message.
  \<^verbatim>\<open>JSON.stringify\<close> is a parameter; it gives a string or \<^verbatim>\<open>undefined\<close>.
\<close>

datatype jsval =
    JUndefined
  | JNull
  | JBool bool
  | JNum int
  | JStr string
  | JArr "jsval list"
  | JObj "(string \<times> jsval) list"

datatype http_result = HttpOk jsval | HttpFailed "nat option" "string option" string

fun truthy :: "jsval \<Rightarrow> bool" where
  "truthy JUndefined = False"
| "truthy JNull = False"
| "truthy (JBool b) = b"
| "truthy (JNum n) = (n \<noteq> 0)"
| "truthy (JStr s) = (s \<noteq> [])"
| "truthy (JArr xs) = True"
| "truthy (JObj kvs) = True"

definition cannot_read :: "string \<Rightarrow> string \<Rightarrow> js_error" where
  "cannot_read what key =
     Error (''Cannot read properties of '' @ what @ '' (reading '' @ [CHR 0x27] @ key @ [CHR 0x27] @ '')'')"

fun get_prop :: "jsval \<Rightarrow> string \<Rightarrow> js_error + jsval" where
  "get_prop JUndefined key = Inl (cannot_read ''undefined'' key)"
| "get_prop JNull key = Inl (cannot_read ''null'' key)"
| "get_prop (JObj kvs) key = Inr (case map_of kvs key of None \<Rightarrow> JUndefined | Some v \<Rightarrow> v)"
| "get_prop v key = Inr JUndefined"

fun get_index :: "jsval \<Rightarrow> nat \<Rightarrow> js_error + jsval" where
  "get_index JUndefined i = Inl (cannot_read ''undefined'' (show_nat i))"
| "get_index JNull i = Inl (cannot_read ''null'' (show_nat i))"
| "get_index (JArr xs) i = Inr (if i < length xs then xs ! i else JUndefined)"
| "get_index (JStr s) i = Inr (if i < length s then JStr [s ! i] else JUndefined)"
| "get_index (JObj kvs) i = Inr (case map_of kvs (show_nat i) of None \<Rightarrow> JUndefined | Some v \<Rightarrow> v)"
| "get_index v i = Inr JUndefined"

fun opt_prop :: "jsval \<Rightarrow> string \<Rightarrow> jsval" where
  "opt_prop (JObj kvs) key = (case map_of kvs key of None \<Rightarrow> JUndefined | Some v \<Rightarrow> v)"
| "opt_prop v key = JUndefined"

definition or_else :: "jsval \<Rightarrow> jsval \<Rightarrow> jsval" where
  "or_else a b = (if truthy a then a else b)"

definition then_read :: "js_error + jsval \<Rightarrow> (jsval \<Rightarrow> js_error + jsval) \<Rightarrow> js_error + jsval" where
  "then_read r f = (case r of Inl err \<Rightarrow> Inl err | Inr v \<Rightarrow> f v)"

definition stringified :: "(jsval \<Rightarrow> string option) \<Rightarrow> jsval \<Rightarrow> jsval" where
  "stringified stringify v = (case stringify v of None \<Rightarrow> JUndefined | Some s \<Rightarrow> JStr s)"

text \<open>
  Flowise: \<^verbatim>\<open>response.data?.text || response.data?.response || JSON.stringify(response.data) || ""\<close>.
\<close>

definition FlowiseProvider_getResponse ::
  "string \<Rightarrow> string \<Rightarrow> (jsval \<Rightarrow> string option) \<Rightarrow> http_result \<Rightarrow> js_error + jsval" where
  "FlowiseProvider_getResponse url token stringify http =
     (if token = [] then Inl (Error ''Flowise API token is invalid or missing'')
      else
        (case http of
           HttpOk data \<Rightarrow>
             Inr (or_else (opt_prop data ''text'')
                   (or_else (opt_prop data ''response'')
                     (or_else (stringified stringify data) (JStr ''''))))
         | HttpFailed status code msg \<Rightarrow>
             if status = Some 401 then
               Inl (Error ''Invalid Flowise API token. Please update your token in settings.'')
             else if code = Some ''ECONNREFUSED'' then
               Inl (Error (''Flowise server unreachable at '' @ url @ ''. Check the URL and server status.''))
             else Inl (Error (''Flowise API error: '' @ msg))))"

text \<open>
  OpenAI: \<^verbatim>\<open>response.data.choices[0].message.content || ""\<close>, inside the \<^verbatim>\<open>try\<close>. A
  \<^verbatim>\<open>TypeError\<close> of the property chain is caught with the errors of the HTTP call; it
  has no \<^verbatim>\<open>response\<close>, so it is rethrown as an API error.
\<close>

definition OpenAIProvider_getResponse :: "http_result \<Rightarrow> js_error + jsval" where
  "OpenAIProvider_getResponse http =
     (case http of
        HttpOk data \<Rightarrow>
          (case then_read (then_read (then_read (get_prop data ''choices'') (\<lambda>choices. get_index choices 0))
                             (\<lambda>choice. get_prop choice ''message''))
                  (\<lambda>msg. get_prop msg ''content'') of
             Inl err \<Rightarrow> Inl (Error (''OpenAI API error: '' @ error_message err))
           | Inr content \<Rightarrow> Inr (or_else content (JStr '''')))
      | HttpFailed status code msg \<Rightarrow>
          if status = Some 401 then
            Inl (Error ''Invalid OpenAI API key. Please update your key in settings.'')
          else Inl (Error (''OpenAI API error: '' @ msg)))"

text \<open>Ollama: \<^verbatim>\<open>response.data.response || ''\<close>, inside the \<^verbatim>\<open>try\<close>.\<close>

definition OllamaProvider_getResponse :: "http_result \<Rightarrow> js_error + jsval" where
  "OllamaProvider_getResponse http =
     (case http of
        HttpOk data \<Rightarrow>
          (case get_prop data ''response'' of
             Inl err \<Rightarrow> Inl (Error (''Ollama API error: '' @ error_message err))
           | Inr reply \<Rightarrow> Inr (or_else reply (JStr '''')))
      | HttpFailed status code msg \<Rightarrow> Inl (Error (''Ollama API error: '' @ msg)))"

text \<open>
  The Flowise adapter does what the claim says: with a token and a successful call it
  never throws, and it answers with the first of \<^verbatim>\<open>text\<close>, \<^verbatim>\<open>response\<close> and the
  stringified body that is truthy (the empty string when none is).
\<close>

lemma Flowise_tolerates_any_body:
  assumes "token \<noteq> []"
  shows "FlowiseProvider_getResponse url token stringify (HttpOk data) =
           Inr (if truthy (opt_prop data ''text'') then opt_prop data ''text''
                else if truthy (opt_prop data ''response'') then opt_prop data ''response''
                else if truthy (stringified stringify data) then stringified stringify data
                else JStr '''')"
  using assms by (simp add: FlowiseProvider_getResponse_def or_else_def)

text \<open>The Ollama adapter throws on a body that is \<^verbatim>\<open>null\<close> or \<^verbatim>\<open>undefined\<close> only.\<close>

lemma Ollama_throws_iff:
  "isl (OllamaProvider_getResponse (HttpOk data)) \<longleftrightarrow> data = JUndefined \<or> data = JNull"
  by (cases data) (auto simp: OllamaProvider_getResponse_def)

definition body_with_text :: jsval where
  "body_with_text = JObj [(''text'', JStr ''hi'')]"

text \<open>
  Claim C7 at concrete inputs. The body is the object \<^verbatim>\<open>{"text": "hi"}\<close>, which has the
  reply under \<^verbatim>\<open>text\<close> and neither \<^verbatim>\<open>choices\<close> nor \<^verbatim>\<open>response\<close>. The OpenAI
  adapter throws; the Ollama adapter answers the empty string, without looking at
  \<^verbatim>\<open>text\<close> or stringifying the body; the Flowise adapter answers \<^verbatim>\<open>hi\<close>.
\<close>

theorem C7_openai_throws_on_absent_field:
  "OpenAIProvider_getResponse (HttpOk body_with_text) =
     Inl (Error (''OpenAI API error: Cannot read properties of undefined (reading ''
                 @ [CHR 0x27] @ ''0'' @ [CHR 0x27] @ '')''))
   \<and> OllamaProvider_getResponse (HttpOk body_with_text) = Inr (JStr '''')
   \<and> FlowiseProvider_getResponse ''http://localhost:3000/api/v1/prediction'' ''0123456789''
        stringify (HttpOk body_with_text) = Inr (JStr ''hi'')"
  by (simp add: OpenAIProvider_getResponse_def OllamaProvider_getResponse_def
      FlowiseProvider_getResponse_def body_with_text_def then_read_def or_else_def cannot_read_def
      show_nat_digit digit_char_def)
end
